theory Spec2Isabelle
  imports Main "HOL-Library.Sublist"
begin

section \<open>Exceptions\<close>

text \<open>
  The exception classes of \<^verbatim>\<open>push50.py\<close> and of the libraries it calls.
  \<^verbatim>\<open>InvalidSlug\<close> is a subclass of \<^verbatim>\<open>Error\<close>, so a handler
  \<^verbatim>\<open>except Error\<close> catches both; \<^verbatim>\<open>GitError\<close> is GitPython's base class.
  \<open>OtherException\<close> stands for every class that no handler of the program names
  (\<^verbatim>\<open>pexpect.TIMEOUT\<close>, \<^verbatim>\<open>requests.ConnectionError\<close>,
  \<^verbatim>\<open>KeyboardInterrupt\<close>, \<^verbatim>\<open>OSError\<close>, ...).
\<close>

datatype exn =
    Error string
  | InvalidSlug string
  | GitError string
  | TypeError
  | KeyError string
  | IndexError
  | ValueError
  | OtherException string

fun is_InvalidSlug :: "exn \<Rightarrow> bool" where
  "is_InvalidSlug (InvalidSlug m) = True"
| "is_InvalidSlug e = False"

fun is_Error :: "exn \<Rightarrow> bool" where
  "is_Error (Error m) = True"
| "is_Error (InvalidSlug m) = True"
| "is_Error e = False"

fun is_GitError :: "exn \<Rightarrow> bool" where
  "is_GitError (GitError m) = True"
| "is_GitError e = False"

section \<open>Python string operations\<close>

text \<open>\<^verbatim>\<open>s.startswith(p)\<close> and \<^verbatim>\<open>s.endswith(p)\<close>.\<close>

definition startswith :: "string \<Rightarrow> string \<Rightarrow> bool" where
  "startswith s p = prefix p s"

definition endswith :: "string \<Rightarrow> string \<Rightarrow> bool" where
  "endswith s p = suffix p s"

text \<open>\<^verbatim>\<open>s.strip(chars)\<close>: every leading and every trailing character that is in
  \<open>chars\<close> is removed.\<close>

definition strip :: "string \<Rightarrow> string \<Rightarrow> string" where
  "strip s chars =
     rev (dropWhile (\<lambda>c. c \<in> set chars) (rev (dropWhile (\<lambda>c. c \<in> set chars) s)))"

text \<open>\<^verbatim>\<open>s.find(c, start)\<close> for a one-character \<open>c\<close> and \<open>start \<ge> 0\<close>: the least
  index \<open>\<ge> start\<close> holding \<open>c\<close>, or \<open>-1\<close>.\<close>

definition find_from :: "string \<Rightarrow> char \<Rightarrow> nat \<Rightarrow> int" where
  "find_from s c start =
     (if c \<in> set (drop start s)
      then int (start + length (takeWhile (\<lambda>x. x \<noteq> c) (drop start s)))
      else - 1)"

text \<open>\<^verbatim>\<open>s.split(c)\<close> for a one-character separator: never empty, one more field
  than there are separators.\<close>

fun split :: "string \<Rightarrow> char \<Rightarrow> string list" where
  "split [] c = [ [] ]"
| "split (x # xs) c =
     (if x = c then [] # split xs c
      else (case split xs c of [] \<Rightarrow> [ [x] ] | w # ws \<Rightarrow> (x # w) # ws))"

text \<open>\<^verbatim>\<open>s.replace(old, new)\<close>: the non-overlapping occurrences of \<open>old\<close>, found
  from the left, are replaced; for an empty \<open>old\<close>, \<open>new\<close> is put before every
  character and at the end.\<close>

function replace :: "string \<Rightarrow> string \<Rightarrow> string \<Rightarrow> string" where
  "replace s old new =
     (if old = [] then new @ concat (map (\<lambda>c. c # new) s)
      else if s = [] then []
      else if prefix old s then new @ replace (drop (length old) s) old new
      else hd s # replace (tl s) old new)"
  by pat_completeness auto
termination
  by (relation "measure (\<lambda>(s, old, new). length s)") (auto simp: prefix_def)

declare replace.simps [simp del]

text \<open>\<^verbatim>\<open>xs[i]\<close> for \<open>i \<ge> 0\<close>: \<^verbatim>\<open>IndexError\<close> out of range.\<close>

definition getindex :: "'a list \<Rightarrow> nat \<Rightarrow> exn + 'a" where
  "getindex xs i = (if i < length xs then Inr (xs ! i) else Inl IndexError)"

text \<open>\<^verbatim>\<open>_ = gettext\<close>, installed with \<^verbatim>\<open>gettext.install\<close> (which falls back to
  the identity). The program translates a message after formatting it, so what is looked
  up is never a message id of a catalogue, and the message comes back as it is.\<close>

definition gettext :: "string \<Rightarrow> string" where
  "gettext m = m"

section \<open>Slug parsing\<close>

text \<open>
  What \<^verbatim>\<open>parse_branch\<close> asks of git: the branches of the local clone at a path
  (\<^verbatim>\<open>map(str, Repo(path).branches)\<close>) and the output of
  \<^verbatim>\<open>git ls-remote --heads url\<close>. Each either raises or returns.
\<close>

record git_env =
  repo_branches :: "string \<Rightarrow> exn + string list"
  ls_remote :: "string \<Rightarrow> exn + string"

text \<open>
  The loop of lines 227 to 231. The candidates come from an iterator; an item of the
  generator of lines 220 and 221 is computed when the loop asks for it, and may raise
  there (\<open>Inl\<close>).
  \<^verbatim>\<open>
  for branch in branches:
      if remainder.startswith(f"{branch}/"):
          return branch, remainder[len(branch)+1:]
  else:
      raise InvalidSlug(slug)
  \<close>
\<close>

fun match_branch :: "string \<Rightarrow> string \<Rightarrow> (exn + string) list \<Rightarrow> exn + string \<times> string" where
  "match_branch slug remainder [] = Inl (InvalidSlug slug)"
| "match_branch slug remainder (Inl e # branches) = Inl e"
| "match_branch slug remainder (Inr branch # branches) =
     (if startswith remainder (branch @ ''/'')
      then Inr (branch, drop (length branch + 1) remainder)
      else match_branch slug remainder branches)"

text \<open>One item of the generator:
  \<^verbatim>\<open>line.split("\t")[1].replace("refs/heads/", "")\<close>.\<close>

definition remote_branch :: "string \<Rightarrow> exn + string" where
  "remote_branch line =
     (case getindex (split line (CHR 0x09)) 1 of
        Inl e \<Rightarrow> Inl e
      | Inr ref \<Rightarrow> Inr (replace ref ''refs/heads/'' ''''))"

text \<open>
  \<^verbatim>\<open>parse_branch(offline)\<close>, lines 214 to 231, closed over \<open>slug\<close>, \<open>org\<close>,
  \<open>repo\<close> and \<open>remainder\<close>. Listing the branches is under \<^verbatim>\<open>try\<close>, where a
  \<^verbatim>\<open>GitError\<close> becomes \<^verbatim>\<open>InvalidSlug(slug)\<close>; the loop is after it. With
  \<open>offline\<close> false the function first calls itself with \<open>offline\<close> true and asks the
  remote only when that call raises \<^verbatim>\<open>InvalidSlug\<close>.
\<close>

function parse_branch ::
  "git_env \<Rightarrow> string \<Rightarrow> string \<Rightarrow> string \<Rightarrow> string \<Rightarrow> bool \<Rightarrow> exn + string \<times> string" where
  "parse_branch env slug org repo remainder True =
     (case repo_branches env (''~/.local/share/push50/'' @ org @ ''/'' @ repo) of
        Inl e \<Rightarrow> if is_GitError e then Inl (InvalidSlug slug) else Inl e
      | Inr branches \<Rightarrow> match_branch slug remainder (map Inr branches))"
| "parse_branch env slug org repo remainder False =
     (case parse_branch env slug org repo remainder True of
        Inr result \<Rightarrow> Inr result
      | Inl e \<Rightarrow>
          if is_InvalidSlug e then
            (case ls_remote env (''https://github.com/'' @ org @ ''/'' @ repo) of
               Inl e' \<Rightarrow> if is_GitError e' then Inl (InvalidSlug slug) else Inl e'
             | Inr out \<Rightarrow>
                 match_branch slug remainder (map remote_branch (split out (CHR 0x0A))))
          else if is_GitError e then Inl (InvalidSlug slug) else Inl e)"
  by pat_completeness auto
termination
  by (relation "measure (\<lambda>(env, slug, org, repo, remainder, offline). if offline then 0 else 1)")
     auto

text \<open>\<^verbatim>\<open>pathlib.Path(problem)\<close>, kept as the string it was built from.\<close>

datatype path = Path string

text \<open>
  \<^verbatim>\<open>_parse_slug(slug, offline=False)\<close>, lines 196 to 235. \<^verbatim>\<open>slug.find("/") + 1\<close>
  is never negative, since \<^verbatim>\<open>find\<close> returns at least \<open>-1\<close>.
\<close>

definition parse_slug ::
  "git_env \<Rightarrow> string \<Rightarrow> bool \<Rightarrow> exn + string \<times> string \<times> string \<times> path" where
  "parse_slug env slug offline =
     (if startswith slug ''/'' \<and> endswith slug ''/'' then
        Inl (InvalidSlug (gettext (''Invalid slug. Did you mean '' @ strip slug ''/''
               @ '', without the leading and trailing slashes?'')))
      else if startswith slug ''/'' then
        Inl (InvalidSlug (gettext (''Invalid slug. Did you mean '' @ strip slug ''/''
               @ '', without the leading slash?'')))
      else if endswith slug ''/'' then
        Inl (InvalidSlug (gettext (''Invalid slug. Did you mean '' @ strip slug ''/''
               @ '', without the trailing slash?'')))
      else
        let idx = find_from slug CHR ''/'' (nat (find_from slug CHR ''/'' 0 + 1)) in
        if idx = - 1 then Inl (InvalidSlug slug)
        else
          let remainder = drop (nat (idx + 1)) slug in
          case getindex (split slug CHR ''/'') 0 of
            Inl e \<Rightarrow> Inl e
          | Inr org \<Rightarrow>
              (case getindex (split slug CHR ''/'') 1 of
                 Inl e \<Rightarrow> Inl e
               | Inr repo \<Rightarrow>
                   (case parse_branch env slug org repo remainder offline of
                      Inl e \<Rightarrow> Inl e
                    | Inr (branch, problem) \<Rightarrow> Inr (org, repo, branch, Path problem))))"

text \<open>
  Two machines on which the slug \<open>cs50/problems/master/hello\<close> is resolved. On the
  first there is no clone under \<^verbatim>\<open>~/.local/share/push50\<close>, so that \<^verbatim>\<open>Repo(...)\<close>
  raises \<^verbatim>\<open>NoSuchPathError\<close>, a \<^verbatim>\<open>GitError\<close>, and the repository at GitHub has no
  branch, so that \<^verbatim>\<open>git ls-remote --heads\<close> prints nothing. On the second the clone is
  there and has no branch.
\<close>

definition git_env_empty_remote :: git_env where
  "git_env_empty_remote =
     \<lparr>repo_branches = (\<lambda>p. Inl (GitError ''NoSuchPathError'')), ls_remote = (\<lambda>u. Inr [])\<rparr>"

definition git_env_empty_clone :: git_env where
  "git_env_empty_clone = \<lparr>repo_branches = (\<lambda>p. Inr []), ls_remote = (\<lambda>u. Inr [])\<rparr>"

section \<open>Effects: calls to the outside, in order\<close>

text \<open>
  The authentication functions talk to child processes, the terminal, the network and git.
  A computation is modelled by its outcome (an exception or a value) together with the
  calls it made, in order. What each call answers is read from an environment, so every
  way the outside can answer, raising included, is an input of the model.
\<close>

text \<open>A positional argument handed to GitPython: a string, or the builtin
  \<^verbatim>\<open>exit\<close> object that line 365 passes.\<close>

datatype pyarg = Str string | BuiltinExit

text \<open>\<^verbatim>\<open>User = collections.namedtuple("User", ["name", "password", "email", "repo"])\<close>;
  \<open>password\<close> is \<^verbatim>\<open>None\<close> or a string.\<close>

record user =
  name :: string
  password :: "string option"
  email :: string
  repo :: string

datatype event =
    Spawn string
  | Sendline string
  | Expect "string list"
  | Close
  | Mkdir string
  | GetUsername string
  | GetPassword string
  | RequestsGet string "string option" string
  | TemporaryFile "string list"
  | GitCall "string list" string "pyarg list" "(string \<times> string) list" "string option"
  | Yield user

type_synonym 'a io = "(exn + 'a) \<times> event list"

definition io_return :: "'a \<Rightarrow> 'a io" where
  "io_return x = (Inr x, [])"

definition io_raise :: "exn \<Rightarrow> 'a io" where
  "io_raise e = (Inl e, [])"

text \<open>One call to the outside: the call is recorded, its outcome is the environment's.\<close>

definition io_call :: "event \<Rightarrow> exn + 'a \<Rightarrow> 'a io" where
  "io_call ev outcome = (outcome, [ev])"

text \<open>Sequencing: an exception ends the computation, and what was called so far stays
  called.\<close>

definition io_bind :: "'a io \<Rightarrow> ('a \<Rightarrow> 'b io) \<Rightarrow> 'b io" where
  "io_bind m f =
     (case m of
        (Inl e, t) \<Rightarrow> (Inl e, t)
      | (Inr x, t) \<Rightarrow> (case f x of (r, t') \<Rightarrow> (r, t @ t')))"

text \<open>\<^verbatim>\<open>try: m except: h\<close>, the handler receiving the exception.\<close>

definition io_try :: "'a io \<Rightarrow> (exn \<Rightarrow> 'a io) \<Rightarrow> 'a io" where
  "io_try m h =
     (case m of
        (Inl e, t) \<Rightarrow> (case h e of (r, t') \<Rightarrow> (r, t @ t'))
      | (Inr x, t) \<Rightarrow> (Inr x, t))"

text \<open>\<^verbatim>\<open>a, b = xs\<close>: \<^verbatim>\<open>ValueError\<close> unless there are exactly two values.\<close>

definition unpack2 :: "'a list \<Rightarrow> exn + 'a \<times> 'a" where
  "unpack2 xs = (case xs of [a, b] \<Rightarrow> Inr (a, b) | _ \<Rightarrow> Inl ValueError)"

text \<open>What \<^verbatim>\<open>child.expect(patterns)\<close> leaves behind: the index of the pattern that
  matched and the groups of the match.\<close>

record expect_match =
  index :: nat
  groups :: "string list"

section \<open>SSH authentication\<close>

record ssh_env =
  ssh_spawn :: "exn + unit"
  ssh_expect :: "exn + expect_match"
  ssh_close :: "exn + unit"

definition ssh_patterns :: "string list" where
  "ssh_patterns =
     [''Hi (.+)! You've successfully authenticated'',
      ''Enter passphrase for key'',
      ''Permission denied'',
      ''Are you sure you want to continue connecting'']"

text \<open>
  \<^verbatim>\<open>_authenticate_ssl(org)\<close>, lines 298 to 313, up to its \<^verbatim>\<open>yield\<close>: the value is what
  it yields. Nothing of the function runs after the \<^verbatim>\<open>yield\<close>.
\<close>

definition authenticate_ssl :: "ssh_env \<Rightarrow> string \<Rightarrow> user option io" where
  "authenticate_ssl env org =
     io_bind (io_call (Spawn ''ssh git@github.com'') (ssh_spawn env)) (\<lambda>_.
     io_bind (io_call (Expect ssh_patterns) (ssh_expect env)) (\<lambda>m.
     io_bind (io_call Close (ssh_close env)) (\<lambda>_.
     if index m = 0 then
       io_bind (getindex (groups m) 0, []) (\<lambda>username.
       io_return (Some \<lparr>name = username,
                         password = None,
                         email = username @ ''@users.noreply.github.com'',
                         repo = ''git@github.com/'' @ org @ ''/'' @ username\<rparr>))
     else io_return None)))"

section \<open>HTTPS authentication\<close>

text \<open>The response of \<^verbatim>\<open>requests.get\<close>: \<open>headers\<close> is the lookup of its
  case-insensitive dictionary, \<open>json_login\<close> the outcome of
  \<^verbatim>\<open>res.json()["login"]\<close>.\<close>

record response =
  headers :: "string \<Rightarrow> string option"
  status_code :: int
  json_login :: "exn + string"

text \<open>
  \<open>home\<close> is what \<^verbatim>\<open>expanduser\<close> puts for \<open>~\<close>. \<^verbatim>\<open>_get_username\<close> returns
  \<^verbatim>\<open>None\<close> at end of input; it and \<^verbatim>\<open>_get_password\<close> read the terminal and are
  taken by their outcome. \<open>with_body\<close> is the block under
  \<^verbatim>\<open>with _authenticate_https(org) as user\<close>: an exception it raises is raised at the
  \<^verbatim>\<open>yield\<close>.
\<close>

record https_env =
  home :: string
  mkdir :: "exn + unit"
  fill_spawn :: "exn + unit"
  fill_sendline :: "exn + unit"
  fill_expect :: "exn + expect_match"
  fill_close :: "exn + unit"
  get_username :: "exn + string option"
  get_password :: "exn + string"
  requests_get :: "exn + response"
  temporary_file :: "string list \<Rightarrow> exn + unit"
  git_credential_approve :: "exn + unit"
  with_body :: "user \<Rightarrow> exn + unit"
  git_credential_cache :: "exn + unit"
  git_credential_osxkeychain :: "exn + unit"

definition cache_dir :: "https_env \<Rightarrow> string" where
  "cache_dir env = home env @ ''/.git-credential-cache''"

definition socket :: "https_env \<Rightarrow> string" where
  "socket env = cache_dir env @ ''/push50''"

definition fill_patterns :: "string list" where
  "fill_patterns =
     [''Username:'',
      ''Password:'',
      ''username=([^'' @ [CHR 0x0D] @ '']+)'' @ [CHR 0x0D, CHR 0x0A]
        @ ''password=([^'' @ [CHR 0x0D] @ '']+)'']"

definition fill_command :: "https_env \<Rightarrow> string" where
  "fill_command env = ''git -c credential.helper='cache --socket '' @ socket env
     @ [CHR 0x27] @ '' credential fill''"

definition api_url :: string where
  "api_url = ''https://api.github.com/user''"

text \<open>The strings of line 357 are not f-strings, so their braces stay.\<close>

definition approve_config :: "string list" where
  "approve_config =
     [''credential.helper='cache --socket {socket} --timeout {timeout}'',
      ''credentialcache.ignoresighub=true'']"

text \<open>\<^verbatim>\<open>git(c=approve_config).credential("approve", istream=f)\<close>, line 357.\<close>

definition approve_call :: "string \<Rightarrow> event" where
  "approve_call f = GitCall approve_config ''credential'' [Str ''approve''] [] (Some f)"

text \<open>\<^verbatim>\<open>git.credential_cache(exit, socket=socket)\<close>, line 365.\<close>

definition cache_exit_call :: "https_env \<Rightarrow> event" where
  "cache_exit_call env =
     GitCall [] ''credential_cache'' [BuiltinExit] [(''socket'', socket env)] None"

definition keychain_contents :: "string list" where
  "keychain_contents = [''host=github.com'', ''protocol=https'']"

text \<open>\<^verbatim>\<open>git.credential_osxkeychain("erase", istream=f)\<close>, line 368.\<close>

definition keychain_erase_call :: "string \<Rightarrow> event" where
  "keychain_erase_call f = GitCall [] ''credential_osxkeychain'' [Str ''erase''] [] (Some f)"

definition otp_message :: string where
  "otp_message = ''Looks like you have two-factor authentication enabled!''
     @ '' Please generate a personal access token and use it as your password.''
     @ '' See https://help.github.com/articles/creating-a-personal-access-token-for-the-command-line for more info.''"

text \<open>
  \<^verbatim>\<open>_file_buffer(contents)\<close>, lines 373 to 378: a temporary file holding the contents
  written one after the other (\<^verbatim>\<open>writelines\<close> adds no line ends), rewound.
\<close>

definition file_buffer :: "https_env \<Rightarrow> string list \<Rightarrow> string io" where
  "file_buffer env contents =
     io_bind (io_call (TemporaryFile contents) (temporary_file env contents)) (\<lambda>_.
     io_return (concat contents))"

text \<open>Lines 340 to 348: the checks on the response. The two debug log lines have no
  effect on the outcome and are left out.\<close>

definition check_response :: "response \<Rightarrow> unit io" where
  "check_response res =
     (if headers res ''X-GitHub-OTP'' \<noteq> None then io_raise (Error otp_message)
      else if status_code res \<noteq> 200 then
        io_raise (Error (if status_code res = 401
                         then ''Invalid username and/or password.''
                         else ''Could not authenticate user.''))
      else io_return ())"

text \<open>Lines 323 to 363, the block under \<^verbatim>\<open>try\<close>, the \<^verbatim>\<open>yield\<close> and the block of the
  caller included.\<close>

definition authenticate_https_try :: "https_env \<Rightarrow> string \<Rightarrow> user io" where
  "authenticate_https_try env org =
     io_bind (io_call (Spawn (fill_command env)) (fill_spawn env)) (\<lambda>_.
     io_bind (io_call (Sendline []) (fill_sendline env)) (\<lambda>_.
     io_bind (io_call (Expect fill_patterns) (fill_expect env)) (\<lambda>m.
     io_bind (if index m = 2 then
                io_bind (unpack2 (groups m), []) (\<lambda>(u, p). io_return (Some u, Some p))
              else io_return (None, None)) (\<lambda>(username, password).
     io_bind (io_call Close (fill_close env)) (\<lambda>_.
     io_bind (if password = None \<or> password = Some [] then
                io_bind (io_call (GetUsername ''Github username: '') (get_username env)) (\<lambda>u.
                io_bind (io_call (GetPassword ''Github password: '') (get_password env)) (\<lambda>p.
                io_return (u, p)))
              else
                (case password of
                   Some p \<Rightarrow> io_return (username, p)
                 | None \<Rightarrow> io_raise TypeError)) (\<lambda>(username, password).
     io_bind (io_call (RequestsGet api_url username password)
                (requests_get env)) (\<lambda>res.
     io_bind (check_response res) (\<lambda>_.
     io_bind (json_login res, []) (\<lambda>username.
     io_bind (file_buffer env [''username='' @ username, ''password='' @ password]) (\<lambda>f.
     io_bind (io_call (approve_call f) (git_credential_approve env)) (\<lambda>_.
     let u = \<lparr>name = username,
              password = Some password,
              email = username @ ''@users.noreply.github.com'',
              repo = ''https://'' @ username @ ''@github.com/'' @ org @ ''/'' @ username\<rparr>
     in io_bind (io_call (Yield u) (with_body env u)) (\<lambda>_.
        io_return u))))))))))))"

text \<open>Lines 364 to 371, the handler, for the exception \<open>e\<close> being handled.\<close>

definition authenticate_https_except :: "https_env \<Rightarrow> exn \<Rightarrow> user io" where
  "authenticate_https_except env e =
     io_bind (io_call (cache_exit_call env) (git_credential_cache env)) (\<lambda>_.
     io_bind (io_try
                (io_bind (file_buffer env keychain_contents) (\<lambda>f.
                 io_call (keychain_erase_call f) (git_credential_osxkeychain env)))
                (\<lambda>e'. if is_GitError e' then io_return () else io_raise e')) (\<lambda>_.
     io_raise e))"

text \<open>\<^verbatim>\<open>_authenticate_https(org)\<close>, lines 315 to 371.\<close>

definition authenticate_https :: "https_env \<Rightarrow> string \<Rightarrow> user io" where
  "authenticate_https env org =
     io_bind (io_call (Mkdir (cache_dir env)) (mkdir env)) (\<lambda>_.
     io_try (authenticate_https_try env org) (authenticate_https_except env))"

section \<open>Example environments\<close>

text \<open>The banner names \<open>alice\<close>; the permission-denied pattern matches.\<close>

definition ssh_env_banner :: ssh_env where
  "ssh_env_banner =
     \<lparr>ssh_spawn = Inr (), ssh_expect = Inr \<lparr>index = 0, groups = [''alice'']\<rparr>,
      ssh_close = Inr ()\<rparr>"

definition ssh_env_denied :: ssh_env where
  "ssh_env_denied =
     \<lparr>ssh_spawn = Inr (), ssh_expect = Inr \<lparr>index = 2, groups = []\<rparr>,
      ssh_close = Inr ()\<rparr>"

text \<open>Nothing cached, the user types \<open>Alice\<close> and \<open>secret\<close>, the API answers with the
  given response, every git call and the caller's block succeed.\<close>

definition https_env_of :: "response \<Rightarrow> https_env" where
  "https_env_of res =
     \<lparr>home = ''/home/alice'', mkdir = Inr (), fill_spawn = Inr (), fill_sendline = Inr (),
      fill_expect = Inr \<lparr>index = 0, groups = []\<rparr>, fill_close = Inr (),
      get_username = Inr (Some ''Alice''), get_password = Inr ''secret'',
      requests_get = Inr res,
      temporary_file = (\<lambda>contents. Inr ()), git_credential_approve = Inr (),
      with_body = (\<lambda>u. Inr ()), git_credential_cache = Inr (),
      git_credential_osxkeychain = Inr ()\<rparr>"

definition response_ok :: response where
  "response_ok = \<lparr>headers = (\<lambda>h. None), status_code = 200, json_login = Inr ''alice''\<rparr>"

definition response_401 :: response where
  "response_401 =
     \<lparr>headers = (\<lambda>h. None), status_code = 401, json_login = Inl (KeyError ''login'')\<rparr>"

definition response_otp :: response where
  "response_otp =
     \<lparr>headers = (\<lambda>h. if h = ''X-GitHub-OTP'' then Some ''required; app'' else None),
      status_code = 401, json_login = Inl (KeyError ''login'')\<rparr>"

text \<open>As \<open>https_env_of response_401\<close>, but \<^verbatim>\<open>git credential-cache\<close> fails.\<close>

definition https_env_cache_fails :: https_env where
  "https_env_cache_fails =
     (https_env_of response_401)\<lparr>git_credential_cache := Inl (GitError ''credential-cache'')\<rparr>"

section \<open>Configurations as Python objects\<close>

text \<open>
  What \<^verbatim>\<open>yaml.safe_load\<close> builds, for the kinds of value a \<^verbatim>\<open>.cs50.yaml\<close> holds:
  \<^verbatim>\<open>None\<close>, booleans, integers, strings, lists and dictionaries with string keys. A
  dictionary is an object that the program writes to, and an anchor and an alias in the
  file give one object in two places; so a value does not hold a dictionary but refers to
  it, by its address in a store. A list is never written to by the code under study (line
  258 builds a new list with \<open>+\<close>), so it is held by its elements.
\<close>

type_synonym addr = nat

datatype yaml =
    YNone
  | YBool bool
  | YInt int
  | YStr string
  | YList "yaml list"
  | YDict addr

text \<open>\<^verbatim>\<open>isinstance(v, list)\<close>.\<close>

fun is_list :: "yaml \<Rightarrow> bool" where
  "is_list (YList xs) = True"
| "is_list v = False"

text \<open>\<^verbatim>\<open>a + b\<close>: lists and strings are concatenated, integers and booleans added as
  integers, anything else is a \<^verbatim>\<open>TypeError\<close>.\<close>

fun py_add :: "yaml \<Rightarrow> yaml \<Rightarrow> exn + yaml" where
  "py_add (YList xs) (YList ys) = Inr (YList (xs @ ys))"
| "py_add (YStr a) (YStr b) = Inr (YStr (a @ b))"
| "py_add (YInt a) (YInt b) = Inr (YInt (a + b))"
| "py_add (YInt a) (YBool b) = Inr (YInt (a + of_bool b))"
| "py_add (YBool a) (YInt b) = Inr (YInt (of_bool a + b))"
| "py_add (YBool a) (YBool b) = Inr (YInt (of_bool a + of_bool b))"
| "py_add a b = Inl TypeError"

text \<open>\<^verbatim>\<open>k in d\<close>, \<^verbatim>\<open>d[k]\<close> and \<^verbatim>\<open>d[k] = v\<close> on a dictionary, which is the list of its
  items in insertion order: a new key goes to the end, an old key keeps its place.\<close>

definition has_key :: "(string \<times> 'v) list \<Rightarrow> string \<Rightarrow> bool" where
  "has_key d k = (map_of d k \<noteq> None)"

definition getitem :: "(string \<times> 'v) list \<Rightarrow> string \<Rightarrow> exn + 'v" where
  "getitem d k = (case map_of d k of None \<Rightarrow> Inl (KeyError k) | Some v \<Rightarrow> Inr v)"

fun setitem :: "(string \<times> 'v) list \<Rightarrow> string \<Rightarrow> 'v \<Rightarrow> (string \<times> 'v) list" where
  "setitem [] k v = [(k, v)]"
| "setitem ((k', v') # d) k v =
     (if k' = k then (k, v) # d else (k', v') # setitem d k v)"

text \<open>
  The store holds dictionaries of two kinds, each kind under its own addresses. A
  configuration, the parsed file, maps a tool name to a reference to the dictionary of
  that tool's settings. The other dictionaries map a key to a value: they are the settings
  dictionaries of the tools and every dictionary found inside a value, at any depth. One
  dictionary can be referred to from several places: as the settings of two tools, as
  the settings of a tool and inside a value of another, by two configurations, or by
  itself. A configuration is referred to by no value: the top-level mapping of a file
  carries no anchor. \<open>next_settings\<close> and \<open>next_config\<close> are the first addresses
  not yet in use.
\<close>

type_synonym settings = "(string \<times> yaml) list"

type_synonym config = "(string \<times> addr) list"

record store =
  settings_at :: "addr \<Rightarrow> settings"
  next_settings :: addr
  config_at :: "addr \<Rightarrow> config"
  next_config :: addr

text \<open>Sequencing of steps that may raise.\<close>

definition exn_bind :: "exn + 'a \<Rightarrow> ('a \<Rightarrow> exn + 'b) \<Rightarrow> exn + 'b" where
  "exn_bind m f = (case m of Inl e \<Rightarrow> Inl e | Inr x \<Rightarrow> f x)"

section \<open>Merging two configurations\<close>

text \<open>
  \<^verbatim>\<open>copy.deepcopy(root_cs50)\<close>, line 247, is library code. It walks the object, makes
  one new dictionary for every dictionary it meets, and keeps the pairs of an original
  and its copy in a memo, so that a dictionary met again gets the copy it already has:
  the copy has the shape of the original, shared dictionaries and cycles included, and no
  dictionary in common with it.

  The dictionaries a value refers to directly, and those the values of a dictionary
  refer to.
\<close>

fun dicts_in :: "yaml \<Rightarrow> addr list" where
  "dicts_in (YList xs) = concat (map dicts_in xs)"
| "dicts_in (YDict a) = [a]"
| "dicts_in v = []"

definition dicts_of :: "store \<Rightarrow> addr \<Rightarrow> addr list" where
  "dicts_of s a = concat (map (\<lambda>p. dicts_in (snd p)) (settings_at s a))"

text \<open>
  The dictionaries that the walk meets when it starts from the dictionaries \<open>as\<close>: those
  and the ones their values refer to, and so on. Every round adds the dictionaries that
  the ones found so far refer to; a store with \<open>next_settings s\<close> dictionaries needs no
  more rounds than that.
\<close>

definition reach_step :: "store \<Rightarrow> addr list \<Rightarrow> addr list" where
  "reach_step s as = remdups (as @ concat (map (dicts_of s) as))"

definition reachable :: "store \<Rightarrow> addr list \<Rightarrow> addr list" where
  "reachable s as = (reach_step s ^^ next_settings s) (remdups as)"

text \<open>The copy of a value under a memo: a list is copied element by element, a
  reference to a dictionary becomes the reference to its copy, anything else is immutable
  and stays.\<close>

fun copy_value :: "(addr \<Rightarrow> addr) \<Rightarrow> yaml \<Rightarrow> yaml" where
  "copy_value memo (YList xs) = YList (map (copy_value memo) xs)"
| "copy_value memo (YDict a) = YDict (memo a)"
| "copy_value memo v = v"

text \<open>The memo for the dictionaries \<open>ds\<close> when the first free address is \<open>n\<close>: the
  copy of the \<open>i\<close>-th of them is at \<open>n + i\<close>.\<close>

definition copy_of :: "addr list \<Rightarrow> addr \<Rightarrow> addr \<Rightarrow> addr" where
  "copy_of ds n a =
     (case map_of (zip ds [n ..< n + length ds]) a of Some a' \<Rightarrow> a' | None \<Rightarrow> a)"

text \<open>
  The deep copy of the configuration \<open>c\<close>: every dictionary met from the settings of its
  tools gets a copy at a new address, with the items of the original and every value
  copied under the memo; the new configuration has the tools of \<open>c\<close>, each referring to
  the copy of its settings.
\<close>

definition deepcopy :: "addr \<Rightarrow> store \<Rightarrow> addr \<times> store" where
  "deepcopy c s =
     (let ds = reachable s (map snd (config_at s c));
          n = next_settings s;
          memo = copy_of ds n;
          c' = next_config s
      in (c',
          s\<lparr>settings_at := (\<lambda>a. if n \<le> a \<and> a < n + length ds
                                then map (\<lambda>(k, v). (k, copy_value memo v))
                                       (settings_at s (ds ! (a - n)))
                                else settings_at s a),
            next_settings := n + length ds,
            config_at := (config_at s)(c' := map (\<lambda>(t, a). (t, memo a)) (config_at s c)),
            next_config := Suc c'\<rparr>))"

text \<open>
  One pass of the inner loop, lines 255 to 260, for one \<open>key\<close> of \<open>cs50[tool]\<close>. Every
  subscript is looked up in the store as it is when the line runs.
  \<^verbatim>\<open>
  if key in root_cs50[tool] and isinstance(root_cs50[tool][key], list):
      result[tool][key] = result[tool][key] + cs50[tool][key]
  else:
      result[tool][key] = cs50[tool][key]
  \<close>
\<close>

definition merge_key ::
  "addr \<Rightarrow> addr \<Rightarrow> addr \<Rightarrow> string \<Rightarrow> string \<Rightarrow> store \<Rightarrow> (exn + unit) \<times> store" where
  "merge_key cs50 root_cs50 result tool key s =
     (case
        exn_bind (getitem (config_at s root_cs50) tool) (\<lambda>root_tool.
        exn_bind
          (if has_key (settings_at s root_tool) key
               \<and> (case map_of (settings_at s root_tool) key of
                     Some v \<Rightarrow> is_list v | None \<Rightarrow> False)
           then
             exn_bind (getitem (config_at s result) tool) (\<lambda>result_tool.
             exn_bind (getitem (settings_at s result_tool) key) (\<lambda>a.
             exn_bind (getitem (config_at s cs50) tool) (\<lambda>cs50_tool.
             exn_bind (getitem (settings_at s cs50_tool) key) (\<lambda>b.
             py_add a b))))
           else
             exn_bind (getitem (config_at s cs50) tool) (\<lambda>cs50_tool.
             getitem (settings_at s cs50_tool) key)) (\<lambda>v.
        exn_bind (getitem (config_at s result) tool) (\<lambda>result_tool.
        Inr (result_tool, v))))
      of
        Inl e \<Rightarrow> (Inl e, s)
      | Inr (result_tool, v) \<Rightarrow>
          (Inr (),
           s\<lparr>settings_at := (settings_at s)
                (result_tool := setitem (settings_at s result_tool) key v)\<rparr>))"

text \<open>The inner loop over the keys of \<open>cs50[tool]\<close>, as they are when the loop starts.\<close>

fun merge_keys ::
  "addr \<Rightarrow> addr \<Rightarrow> addr \<Rightarrow> string \<Rightarrow> string list \<Rightarrow> store \<Rightarrow> (exn + unit) \<times> store" where
  "merge_keys cs50 root_cs50 result tool [] s = (Inr (), s)"
| "merge_keys cs50 root_cs50 result tool (key # keys) s =
     (case merge_key cs50 root_cs50 result tool key s of
        (Inl e, s') \<Rightarrow> (Inl e, s')
      | (Inr u, s') \<Rightarrow> merge_keys cs50 root_cs50 result tool keys s')"

text \<open>One pass of the outer loop, lines 250 to 260, for one \<open>tool\<close> of \<open>cs50\<close>.\<close>

definition merge_tool ::
  "addr \<Rightarrow> addr \<Rightarrow> addr \<Rightarrow> string \<Rightarrow> store \<Rightarrow> (exn + unit) \<times> store" where
  "merge_tool cs50 root_cs50 result tool s =
     (if \<not> has_key (config_at s root_cs50) tool then
        (case getitem (config_at s cs50) tool of
           Inl e \<Rightarrow> (Inl e, s)
         | Inr cs50_tool \<Rightarrow>
             (Inr (),
              s\<lparr>config_at := (config_at s)
                   (result := setitem (config_at s result) tool cs50_tool)\<rparr>))
      else
        (case getitem (config_at s cs50) tool of
           Inl e \<Rightarrow> (Inl e, s)
         | Inr cs50_tool \<Rightarrow>
             merge_keys cs50 root_cs50 result tool (map fst (settings_at s cs50_tool)) s))"

text \<open>The outer loop over the tools of \<open>cs50\<close>, as they are when the loop starts.\<close>

fun merge_tools ::
  "addr \<Rightarrow> addr \<Rightarrow> addr \<Rightarrow> string list \<Rightarrow> store \<Rightarrow> (exn + unit) \<times> store" where
  "merge_tools cs50 root_cs50 result [] s = (Inr (), s)"
| "merge_tools cs50 root_cs50 result (tool # tools) s =
     (case merge_tool cs50 root_cs50 result tool s of
        (Inl e, s') \<Rightarrow> (Inl e, s')
      | (Inr u, s') \<Rightarrow> merge_tools cs50 root_cs50 result tools s')"

text \<open>\<^verbatim>\<open>_merge_cs50_yaml(cs50, root_cs50)\<close>, lines 245 to 261: the arguments and the
  result are references to configurations.\<close>

definition merge_cs50_yaml :: "addr \<Rightarrow> addr \<Rightarrow> store \<Rightarrow> (exn + addr) \<times> store" where
  "merge_cs50_yaml cs50 root_cs50 s =
     (case deepcopy root_cs50 s of
        (result, s1) \<Rightarrow>
          (case merge_tools cs50 root_cs50 result (map fst (config_at s1 cs50)) s1 of
             (Inl e, s2) \<Rightarrow> (Inl e, s2)
           | (Inr u, s2) \<Rightarrow> (Inr result, s2)))"

text \<open>A configuration read out of the store, with the items in order, as Python would
  print the dictionary; a dictionary inside a value shows as the reference to it.\<close>

definition config_items :: "store \<Rightarrow> addr \<Rightarrow> (string \<times> settings) list" where
  "config_items s c = map (\<lambda>(tool, a). (tool, settings_at s a)) (config_at s c)"

text \<open>
  A reference to a configuration is sound in a store when the configuration and the
  settings dictionaries of its tools are objects of the store, and no dictionary has a
  key twice.
\<close>

definition wf_config :: "store \<Rightarrow> addr \<Rightarrow> bool" where
  "wf_config s c \<longleftrightarrow>
     c < next_config s \<and> distinct (map fst (config_at s c)) \<and>
     (\<forall>a \<in> snd ` set (config_at s c).
        a < next_settings s \<and> distinct (map fst (settings_at s a)))"

text \<open>
  A store is sound when every dictionary that a value of one of its dictionaries refers
  to is a dictionary of the store.
\<close>

definition wf_store :: "store \<Rightarrow> bool" where
  "wf_store s \<longleftrightarrow>
     (\<forall>a \<in> set [0 ..< next_settings s]. \<forall>b \<in> set (dicts_of s a). b < next_settings s)"

text \<open>The store of the example of the specification: configuration 0 is
  \<^verbatim>\<open>{"a": {"include": ["x"]}, "b": {"req": 1}}\<close>, configuration 1 is
  \<^verbatim>\<open>{"a": {"include": ["y"]}, "c": {"req": 2}}\<close>.\<close>

definition example_store :: store where
  "example_store =
     \<lparr>settings_at = (\<lambda>a. [])
        (0 := [(''include'', YList [YStr ''x''])],
         1 := [(''req'', YInt 1)],
         2 := [(''include'', YList [YStr ''y''])],
         3 := [(''req'', YInt 2)]),
      next_settings = 4,
      config_at = (\<lambda>c. [])
        (0 := [(''a'', 0), (''b'', 1)],
         1 := [(''a'', 2), (''c'', 3)]),
      next_config = 2\<rparr>"

text \<open>As configuration 1 of the example, with \<open>include\<close> of the local tool \<open>a\<close> a
  string instead of a list.\<close>

definition example_store_str :: store where
  "example_store_str =
     example_store\<lparr>settings_at := (settings_at example_store)
        (0 := [(''include'', YStr ''x'')])\<rparr>"

text \<open>
  A store with dictionaries inside values. Configuration 0, the local one, is
  \<^verbatim>\<open>{"a": {"include": ["x"], "opts": {"v": 1}}}\<close>. Configuration 1, the root, is
  \<^verbatim>\<open>{"a": {"include": ["y", E], "env": E}, "c": E}\<close> with \<^verbatim>\<open>E = {"k": 2}\<close> one
  dictionary (an anchor and two aliases): it is the settings of the tool \<open>c\<close>, which the
  local configuration does not have, and is inside two values of the tool \<open>a\<close>.
\<close>

definition example_store_tree :: store where
  "example_store_tree =
     \<lparr>settings_at = (\<lambda>a. [])
        (0 := [(''include'', YList [YStr ''x'']), (''opts'', YDict 1)],
         1 := [(''v'', YInt 1)],
         2 := [(''include'', YList [YStr ''y'', YDict 3]), (''env'', YDict 3)],
         3 := [(''k'', YInt 2)]),
      next_settings = 4,
      config_at = (\<lambda>c. [])
        (0 := [(''a'', 0)],
         1 := [(''a'', 2), (''c'', 3)]),
      next_config = 2\<rparr>"

section \<open>Notions used to state and prove the properties of the merge\<close>

text \<open>\<^verbatim>\<open>c[tool][key]\<close> in a store, if the configuration has the tool and the tool has
  the key.\<close>

definition value_at :: "store \<Rightarrow> addr \<Rightarrow> string \<Rightarrow> string \<Rightarrow> yaml option" where
  "value_at s c tool key =
     (case map_of (config_at s c) tool of
        None \<Rightarrow> None
      | Some a \<Rightarrow> map_of (settings_at s a) key)"

definition has_tool :: "store \<Rightarrow> addr \<Rightarrow> string \<Rightarrow> bool" where
  "has_tool s c tool = has_key (config_at s c) tool"

text \<open>
  What holds between the deep copy and the end of the merge. \<open>s0\<close> is the store at the
  call, \<open>r\<close> the root configuration, \<open>res\<close> the result, \<open>cp\<close> sends a settings
  dictionary of the root to its copy, \<open>s\<close> is the store now. The result and the copies
  are objects that did not exist at the call; no object that existed at the call has
  changed; the result has every tool of the root, referring to the copy; a tool of the
  result that the root has not refers to an object that existed at the call; and the
  copy has every key of the original, with a list where the original has a list.
\<close>

definition merge_inv :: "store \<Rightarrow> addr \<Rightarrow> addr \<Rightarrow> (addr \<Rightarrow> addr) \<Rightarrow> store \<Rightarrow> bool" where
  "merge_inv s0 r res cp s \<longleftrightarrow>
     next_config s0 \<le> res \<and>
     inj_on cp (snd ` set (config_at s0 r)) \<and>
     (\<forall>a \<in> snd ` set (config_at s0 r). next_settings s0 \<le> cp a) \<and>
     (\<forall>a < next_settings s0. settings_at s a = settings_at s0 a) \<and>
     (\<forall>c < next_config s0. config_at s c = config_at s0 c) \<and>
     (\<forall>t a. map_of (config_at s0 r) t = Some a \<longrightarrow>
        map_of (config_at s res) t = Some (cp a)) \<and>
     (\<forall>t a. map_of (config_at s res) t = Some a \<longrightarrow>
        map_of (config_at s0 r) t = None \<longrightarrow> a < next_settings s0) \<and>
     (\<forall>t a k v. map_of (config_at s0 r) t = Some a \<longrightarrow>
        map_of (settings_at s0 a) k = Some v \<longrightarrow>
        (\<exists>v'. map_of (settings_at s (cp a)) k = Some v' \<and> (is_list v \<longrightarrow> is_list v')))"

text \<open>The pairs of a tool and a key at which the merge appends a value that is not a
  list to a list: the key is in both configurations under the tool, the root has a list
  there and the local configuration has not.\<close>

definition clash :: "store \<Rightarrow> addr \<Rightarrow> addr \<Rightarrow> string \<Rightarrow> string \<Rightarrow> bool" where
  "clash s c r tool key \<longleftrightarrow>
     (\<exists>lv rv. value_at s c tool key = Some lv \<and> value_at s r tool key = Some rv
        \<and> is_list rv \<and> \<not> is_list lv)"

text \<open>The value a key gets that the local configuration has with the value \<open>lv\<close>, when
  the result has it with the value \<open>rv\<close> or not at all (\<open>None\<close>), and \<open>lv\<close> is a list
  where \<open>rv\<close> is.\<close>

definition merged_value :: "yaml \<Rightarrow> yaml option \<Rightarrow> yaml" where
  "merged_value lv rv =
     (case rv of
        Some (YList xs) \<Rightarrow> (case lv of YList ys \<Rightarrow> YList (xs @ ys) | _ \<Rightarrow> lv)
      | _ \<Rightarrow> lv)"

text \<open>A set of dictionaries is closed when the values of its dictionaries refer to
  dictionaries of the set only.\<close>

definition closed_in :: "store \<Rightarrow> addr set \<Rightarrow> bool" where
  "closed_in s A \<longleftrightarrow> (\<forall>a \<in> A. set (dicts_of s a) \<subseteq> A)"

text \<open>
  A value as it reads, with every dictionary it refers to written out in its place, down
  to \<open>d\<close> dictionaries deep; below that depth a dictionary reads as \<open>PDeeper\<close>. Two
  values that read the same at every depth cannot be told apart by reading them.
\<close>

datatype pyval =
    PNone
  | PBool bool
  | PInt int
  | PStr string
  | PList "pyval list"
  | PDict "(string \<times> pyval) list"
  | PDeeper

fun read_value :: "store \<Rightarrow> nat \<Rightarrow> yaml \<Rightarrow> pyval" where
  "read_value s d YNone = PNone"
| "read_value s d (YBool b) = PBool b"
| "read_value s d (YInt i) = PInt i"
| "read_value s d (YStr str) = PStr str"
| "read_value s d (YList xs) = PList (map (read_value s d) xs)"
| "read_value s 0 (YDict a) = PDeeper"
| "read_value s (Suc d) (YDict a) =
     PDict (map (\<lambda>p. (fst p, read_value s d (snd p))) (settings_at s a))"

text \<open>\<^verbatim>\<open>c[tool][key]\<close> as it reads to the depth \<open>d\<close>.\<close>

definition read_at :: "store \<Rightarrow> addr \<Rightarrow> string \<Rightarrow> string \<Rightarrow> nat \<Rightarrow> pyval option" where
  "read_at s c tool key d = map_option (read_value s d) (value_at s c tool key)"

text \<open>The settings dictionaries of the root \<open>r\<close> whose copies the merge writes to: those
  of the tools that the local configuration \<open>c\<close> has as well.\<close>

definition written :: "store \<Rightarrow> addr \<Rightarrow> addr \<Rightarrow> addr list" where
  "written s c r =
     map snd (filter (\<lambda>p. has_key (config_at s c) (fst p)) (config_at s r))"

text \<open>
  The root shares none of those dictionaries: none of them is the settings of two tools
  of the root, and no value under a tool of the root refers to one of them, directly or
  through other dictionaries.
\<close>

definition unshared :: "store \<Rightarrow> addr \<Rightarrow> addr \<Rightarrow> bool" where
  "unshared s c r \<longleftrightarrow>
     (\<forall>p \<in> set (config_at s r). \<forall>q \<in> set (config_at s r).
        fst p \<noteq> fst q \<and> snd p = snd q \<longrightarrow> snd p \<notin> set (written s c r))
   \<and> (\<forall>p \<in> set (config_at s r). \<forall>b \<in> set (reachable s (dicts_of s (snd p))).
        b \<notin> set (written s c r))"

text \<open>The root of this store has the tools \<open>a\<close> and \<open>b\<close> on one settings dictionary
  (an anchor and an alias in the file); the local configuration has \<open>a\<close> only:
  configuration 0 is \<^verbatim>\<open>{"a": {"include": ["x"]}}\<close>, configuration 1 is
  \<^verbatim>\<open>{"a": D, "b": D}\<close> with \<^verbatim>\<open>D = {"include": ["y"]}\<close>.\<close>

definition example_store_shared :: store where
  "example_store_shared =
     \<lparr>settings_at = (\<lambda>a. [])
        (0 := [(''include'', YList [YStr ''x''])],
         1 := [(''include'', YList [YStr ''y''])]),
      next_settings = 2,
      config_at = (\<lambda>c. [])
        (0 := [(''a'', 0)],
         1 := [(''a'', 1), (''b'', 1)]),
      next_config = 2\<rparr>"

text \<open>In the root of this store the settings dictionary of the tool \<open>a\<close> is also the
  value of a key of the tool \<open>b\<close>: configuration 0 is \<^verbatim>\<open>{"a": {"include": ["x"]}}\<close>,
  configuration 1 is \<^verbatim>\<open>{"a": D, "b": {"base": D}}\<close> with
  \<^verbatim>\<open>D = {"include": ["y"]}\<close>.\<close>

definition example_store_nested :: store where
  "example_store_nested =
     \<lparr>settings_at = (\<lambda>a. [])
        (0 := [(''include'', YList [YStr ''x''])],
         1 := [(''include'', YList [YStr ''y''])],
         2 := [(''base'', YDict 1)]),
      next_settings = 3,
      config_at = (\<lambda>c. [])
        (0 := [(''a'', 0)],
         1 := [(''a'', 1), (''b'', 2)]),
      next_config = 2\<rparr>"

section \<open>Fetching and checking the configuration\<close>

text \<open>What \<^verbatim>\<open>requests.get\<close> returns, as far as \<^verbatim>\<open>_get_content_from\<close> reads it.\<close>

record http_response =
  ok :: bool
  content :: string

text \<open>
  \<^verbatim>\<open>_get_content_from(org, repo, branch, filepath)\<close>, lines 237 to 243, for the answer
  \<open>get\<close> that \<^verbatim>\<open>requests.get\<close> gives to a URL: it raises or returns a response.
\<close>

definition get_content_from ::
  "(string \<Rightarrow> exn + http_response) \<Rightarrow> string \<Rightarrow> string \<Rightarrow> string \<Rightarrow> string \<Rightarrow> exn + string" where
  "get_content_from get org rp branch filepath =
     (case get (''https://github.com/'' @ org @ ''/'' @ rp @ ''/raw/'' @ branch @ ''/'' @ filepath) of
        Inl e \<Rightarrow> Inl e
      | Inr r \<Rightarrow>
          if \<not> ok r
          then Inl (Error (gettext ''Invalid slug. Did you mean to submit something else?''))
          else Inr (content r))"

text \<open>\<^verbatim>\<open>for f in v\<close>: the elements of a list, the characters of a string, the keys of a
  dictionary as the store has it; other values are not iterable.\<close>

fun py_iter :: "store \<Rightarrow> yaml \<Rightarrow> exn + yaml list" where
  "py_iter s (YList xs) = Inr xs"
| "py_iter s (YStr str) = Inr (map (\<lambda>c. YStr [c]) str)"
| "py_iter s (YDict a) = Inr (map (\<lambda>p. YStr (fst p)) (settings_at s a))"
| "py_iter s v = Inl TypeError"

text \<open>\<^verbatim>\<open>[f for f in files if not os.path.isfile(f)]\<close>, for the answer \<open>isfile\<close> of the
  file system.\<close>

fun missing_files :: "(yaml \<Rightarrow> exn + bool) \<Rightarrow> yaml list \<Rightarrow> exn + yaml list" where
  "missing_files isfile [] = Inr []"
| "missing_files isfile (f # files) =
     exn_bind (isfile f) (\<lambda>present.
     exn_bind (missing_files isfile files) (\<lambda>missing.
     Inr (if present then missing else f # missing)))"

text \<open>\<^verbatim>\<open>sep.join(xs)\<close>: every item has to be a string.\<close>

fun join :: "string \<Rightarrow> yaml list \<Rightarrow> exn + string" where
  "join sep [] = Inr []"
| "join sep [YStr a] = Inr a"
| "join sep (YStr a # xs) = exn_bind (join sep xs) (\<lambda>rest. Inr (a @ sep @ rest))"
| "join sep (v # xs) = Inl TypeError"

text \<open>\<^verbatim>\<open>_check_required(tool_yaml)\<close>, lines 263 to 278, in the store \<open>s\<close>.\<close>

definition check_required ::
  "(yaml \<Rightarrow> exn + bool) \<Rightarrow> store \<Rightarrow> settings \<Rightarrow> exn + unit" where
  "check_required isfile s tool_yaml =
     (if \<not> has_key tool_yaml ''required'' then Inr ()
      else
        exn_bind (getitem tool_yaml ''required'') (\<lambda>required.
        exn_bind (py_iter s required) (\<lambda>files.
        exn_bind (missing_files isfile files) (\<lambda>missing.
        if missing \<noteq> [] then
          exn_bind (join [CHR 0x0A] missing) (\<lambda>names.
          Inl (Error (gettext ''You seem to be missing these files:'' @ [CHR 0x0A] @ names
                 @ [CHR 0x0A]
                 @ gettext ''Ensure you have the required files before submitting.'')))
        else Inr ()))))"

section \<open>Connecting\<close>

text \<open>
  What \<^verbatim>\<open>connect\<close> asks of the outside: git, for the branches; the answers of the first
  and of the second \<^verbatim>\<open>requests.get\<close>; \<^verbatim>\<open>str(Path(dir) / name)\<close> of \<^verbatim>\<open>pathlib\<close>;
  \<^verbatim>\<open>yaml.safe_load\<close>, which raises or puts the parsed configuration (a mapping of
  mappings) into the store and returns a reference to it; and \<^verbatim>\<open>os.path.isfile\<close>.
\<close>

record connect_env =
  git :: git_env
  local_get :: "string \<Rightarrow> exn + http_response"
  root_get :: "string \<Rightarrow> exn + http_response"
  path_join :: "path \<Rightarrow> string \<Rightarrow> string"
  safe_load :: "string \<Rightarrow> store \<Rightarrow> (exn + addr) \<times> store"
  isfile :: "yaml \<Rightarrow> exn + bool"

text \<open>Sequencing of steps that read and write the store and may raise.\<close>

definition st_bind ::
  "(store \<Rightarrow> (exn + 'a) \<times> store) \<Rightarrow> ('a \<Rightarrow> store \<Rightarrow> (exn + 'b) \<times> store)
     \<Rightarrow> store \<Rightarrow> (exn + 'b) \<times> store" where
  "st_bind m f s = (case m s of (Inl e, s') \<Rightarrow> (Inl e, s') | (Inr x, s') \<Rightarrow> f x s')"

text \<open>
  \<^verbatim>\<open>connect(org, branch, tool)\<close>, lines 50 to 81. The progress bar, a thread that prints
  dots, is left out. Lines 70 to 76: only an exception of class \<^verbatim>\<open>Error\<close> raised by the
  second \<^verbatim>\<open>_get_content_from\<close> is caught; what the \<^verbatim>\<open>else\<close> block raises is not.
\<close>

definition connect ::
  "connect_env \<Rightarrow> string \<Rightarrow> string \<Rightarrow> string \<Rightarrow> store \<Rightarrow> (exn + addr) \<times> store" where
  "connect env org branch tool =
     st_bind (\<lambda>s. (parse_slug (git env) branch False, s))
       (\<lambda>(problem_org, problem_repo, problem_branch, problem_dir).
     st_bind (\<lambda>s. (get_content_from (local_get env) problem_org problem_repo problem_branch
                     (path_join env problem_dir ''.cs50.yaml''), s)) (\<lambda>cs50_yaml_content.
     st_bind (safe_load env cs50_yaml_content) (\<lambda>cs50_yaml.
     st_bind (\<lambda>s. (if \<not> has_key (config_at s cs50_yaml) tool
                    then Inl (InvalidSlug (''Invalid slug for '' @ tool
                                @ '', did you mean something else?''))
                    else Inr (), s)) (\<lambda>_.
     st_bind (\<lambda>s. case get_content_from (root_get env) problem_org problem_repo problem_branch
                         ''.cs50.yaml'' of
                     Inl e \<Rightarrow> if is_Error e then (Inr cs50_yaml, s) else (Inl e, s)
                   | Inr root_cs50_yaml_content \<Rightarrow>
                       st_bind (safe_load env root_cs50_yaml_content) (\<lambda>root_cs50_yaml.
                       merge_cs50_yaml cs50_yaml root_cs50_yaml) s) (\<lambda>cs50_yaml.
     st_bind (\<lambda>s. (exn_bind (getitem (config_at s cs50_yaml) tool) (\<lambda>tool_yaml.
                    check_required (isfile env) s (settings_at s tool_yaml)), s)) (\<lambda>_.
     (\<lambda>s. (getitem (config_at s cs50_yaml) tool, s))))))))"

text \<open>
  An environment for the slug \<open>cs50/problems/master/hello\<close>: the local clone has the
  branch \<open>master\<close>; the first request is answered with the file \<open>local\<close>; the second
  as given; \<open>local\<close> parses to configuration 0 and \<open>root\<close> to configuration 1 of the
  store; every file is there.
\<close>

definition example_connect_env :: "(exn + http_response) \<Rightarrow> connect_env" where
  "example_connect_env second =
     \<lparr>git = \<lparr>repo_branches = (\<lambda>p. Inr [''master'']), ls_remote = (\<lambda>u. Inr [])\<rparr>,
      local_get = (\<lambda>url. Inr \<lparr>ok = True, content = ''local''\<rparr>),
      root_get = (\<lambda>url. second),
      path_join = (\<lambda>dir name. (case dir of Path d \<Rightarrow> d @ ''/'' @ name)),
      safe_load = (\<lambda>text s.
         if text = ''local'' then (Inr 0, s)
         else if text = ''root'' then (Inr 1, s)
         else (Inl (OtherException ''YAMLError''), s)),
      isfile = (\<lambda>f. Inr True)\<rparr>"

section \<open>Properties of slug parsing\<close>

subsection \<open>What \<open>strip\<close> removes\<close>

lemma strip_decomp:
  "\<exists>n m. s = replicate n c @ strip s [c] @ replicate m c
      \<and> (0 < n \<longrightarrow> startswith s [c]) \<and> (0 < m \<longrightarrow> endswith s [c])"
proof -
  let ?P = "\<lambda>x. x = c"
  let ?t = "dropWhile ?P s"
  have s1: "s = takeWhile ?P s @ ?t" by simp
  have tw: "takeWhile ?P s = replicate (length (takeWhile ?P s)) c"
    by (metis (mono_tags, lifting) replicate_eqI set_takeWhileD)
  let ?u = "dropWhile ?P (rev ?t)"
  have s2: "rev ?t = takeWhile ?P (rev ?t) @ ?u" by simp
  have tw2: "takeWhile ?P (rev ?t) = replicate (length (takeWhile ?P (rev ?t))) c"
    by (metis (mono_tags, lifting) replicate_eqI set_takeWhileD)
  have st: "strip s [c] = rev ?u" by (simp add: strip_def)
  have "?t = rev ?u @ rev (takeWhile ?P (rev ?t))"
    using s2 by (metis rev_append rev_rev_ident)
  also have "rev (takeWhile ?P (rev ?t)) = replicate (length (takeWhile ?P (rev ?t))) c"
    using tw2 by (metis rev_replicate)
  finally have t: "?t = strip s [c] @ replicate (length (takeWhile ?P (rev ?t))) c"
    using st by simp
  let ?n = "length (takeWhile ?P s)" and ?m = "length (takeWhile ?P (rev ?t))"
  have eq: "s = replicate ?n c @ strip s [c] @ replicate ?m c"
    using s1 tw t by metis
  have n: "0 < ?n \<longrightarrow> startswith s [c]"
    by (cases s) (auto simp: startswith_def)
  have m: "0 < ?m \<longrightarrow> endswith s [c]"
  proof
    assume "0 < ?m"
    then have "replicate ?m c = replicate (?m - 1) c @ [c]"
      by (metis Suc_pred' replicate_Suc replicate_append_same)
    then have "s = (replicate ?n c @ strip s [c] @ replicate (?m - 1) c) @ [c]"
      using eq by (metis append.assoc)
    then show "endswith s [c]" unfolding endswith_def suffix_def by blast
  qed
  from eq n m show ?thesis by blast
qed

lemma strip_no_slash:
  "\<not> startswith (strip s [c]) [c] \<and> \<not> endswith (strip s [c]) [c]"
proof -
  let ?P = "\<lambda>x. x = c"
  let ?t = "dropWhile ?P s"
  let ?u = "dropWhile ?P (rev ?t)"
  have st: "strip s [c] = rev ?u" by (simp add: strip_def)
  have e: "\<not> endswith (strip s [c]) [c]"
  proof
    assume "endswith (strip s [c]) [c]"
    then obtain zs where "rev ?u = zs @ [c]" using st by (auto simp: endswith_def suffix_def)
    then have "?u = c # rev zs" by (metis rev.simps(2) rev_rev_ident rev_append append_Nil rev_singleton_conv)
    then show False by (metis (full_types) hd_dropWhile list.sel(1) list.simps(3))
  qed
  have b: "\<not> startswith (strip s [c]) [c]"
  proof
    assume "startswith (strip s [c]) [c]"
    then obtain zs where z: "rev ?u = c # zs" using st by (auto simp: startswith_def prefix_def)
    then have u: "?u = rev zs @ [c]" by (metis rev.simps(2) rev_rev_ident)
    have "?u \<noteq> []" using u by simp
    have "suffix ?u (rev ?t)" by (simp add: suffix_dropWhile)
    then obtain ws where "rev ?t = ws @ rev zs @ [c]" using u by (auto simp: suffix_def)
    then have "?t = c # zs @ rev ws" by (metis append_Cons append_Nil rev.simps(2) rev_append rev_rev_ident rev_swap)
    then show False by (metis (full_types) hd_dropWhile list.sel(1) list.simps(3))
  qed
  from b e show ?thesis by simp
qed

text \<open>The three corrective messages end differently, whatever slug they suggest.\<close>

lemma msgs_distinct:
  "a @ '', without the leading and trailing slashes?'' \<noteq> b @ '', without the leading slash?''"
  "a @ '', without the leading and trailing slashes?'' \<noteq> b @ '', without the trailing slash?''"
  "a @ '', without the leading slash?'' \<noteq> b @ '', without the trailing slash?''"
proof -
  show "a @ '', without the leading and trailing slashes?'' \<noteq> b @ '', without the leading slash?''"
  proof
    assume "a @ '', without the leading and trailing slashes?'' = b @ '', without the leading slash?''"
    then have "take 3 (rev (a @ '', without the leading and trailing slashes?'')) = take 3 (rev (b @ '', without the leading slash?''))"
      by simp
    then show False by simp
  qed
  show "a @ '', without the leading and trailing slashes?'' \<noteq> b @ '', without the trailing slash?''"
  proof
    assume "a @ '', without the leading and trailing slashes?'' = b @ '', without the trailing slash?''"
    then have "take 3 (rev (a @ '', without the leading and trailing slashes?'')) = take 3 (rev (b @ '', without the trailing slash?''))"
      by simp
    then show False by simp
  qed
  show "a @ '', without the leading slash?'' \<noteq> b @ '', without the trailing slash?''"
  proof
    assume "a @ '', without the leading slash?'' = b @ '', without the trailing slash?''"
    then have "take 11 (rev (a @ '', without the leading slash?'')) = take 11 (rev (b @ '', without the trailing slash?''))"
      by simp
    then show False by simp
  qed
qed

lemma parse_slug_slash_message:
  assumes "startswith slug ''/'' \<or> endswith slug ''/''"
  shows "parse_slug env slug offline =
     Inl (InvalidSlug (''Invalid slug. Did you mean '' @ strip slug ''/'' @
       (if startswith slug ''/'' \<and> endswith slug ''/''
        then '', without the leading and trailing slashes?''
        else if startswith slug ''/'' then '', without the leading slash?''
        else '', without the trailing slash?'')))"
  using assms by (auto simp: parse_slug_def gettext_def)

lemma parse_slug_slash_distinct:
  assumes "startswith s1 ''/'' \<or> endswith s1 ''/''"
    and "startswith s2 ''/'' \<or> endswith s2 ''/''"
    and "startswith s1 ''/'' \<noteq> startswith s2 ''/'' \<or> endswith s1 ''/'' \<noteq> endswith s2 ''/''"
  shows "parse_slug env1 s1 o1 \<noteq> parse_slug env2 s2 o2"
  using assms msgs_distinct [of "strip s1 ''/''" "strip s2 ''/''"]
    msgs_distinct [of "strip s2 ''/''" "strip s1 ''/''"]
  by (auto simp: parse_slug_slash_message)

subsection \<open>The branch loop\<close>

lemma parse_branch_offline:
  "repo_branches env (''~/.local/share/push50/'' @ org @ ''/'' @ rp) = Inr branches \<Longrightarrow>
   parse_branch env slug org rp remainder True = match_branch slug remainder (map Inr branches)"
  by simp

text \<open>
  The loop, for every list of candidates that were all computed: it selects the first
  branch in listing order such that the remainder is that branch name, then \<open>/\<close>, then
  some rest, and returns that branch with the rest; a branch that is not followed by
  \<open>/\<close> in the remainder is passed over. If no candidate qualifies, the result is
  \<^verbatim>\<open>InvalidSlug(slug)\<close>. With the candidates \<open>master\<close>, \<open>master-v2\<close> and the
  remainder \<open>master-v2/ps1\<close> the branch is \<open>master-v2\<close>. Offline, the candidates are
  the branches of the local clone, in the order git lists them.
\<close>

lemma match_branch_first_match:
  "((\<exists>i rest. i < length branches \<and> remainder = branches ! i @ ''/'' @ rest
        \<and> (\<forall>j<i. \<not> (\<exists>r. remainder = branches ! j @ ''/'' @ r))
        \<and> match_branch slug remainder (map Inr branches) = Inr (branches ! i, rest))
    \<or> ((\<forall>b \<in> set branches. \<not> (\<exists>r. remainder = b @ ''/'' @ r))
        \<and> match_branch slug remainder (map Inr branches) = Inl (InvalidSlug slug)))
   \<and> match_branch slug ''master-v2/ps1'' (map Inr [''master'', ''master-v2''])
        = Inr (''master-v2'', ''ps1'')
   \<and> (repo_branches env (''~/.local/share/push50/'' @ org @ ''/'' @ rp) = Inr branches \<longrightarrow>
        parse_branch env slug org rp remainder True
          = match_branch slug remainder (map Inr branches))"
proof (intro conjI)
  show "(\<exists>i rest. i < length branches \<and> remainder = branches ! i @ ''/'' @ rest
        \<and> (\<forall>j<i. \<not> (\<exists>r. remainder = branches ! j @ ''/'' @ r))
        \<and> match_branch slug remainder (map Inr branches) = Inr (branches ! i, rest))
    \<or> ((\<forall>b \<in> set branches. \<not> (\<exists>r. remainder = b @ ''/'' @ r))
        \<and> match_branch slug remainder (map Inr branches) = Inl (InvalidSlug slug))"
  proof (induction branches)
    case Nil
    then show ?case by simp
  next
    case (Cons b bs)
    show ?case
    proof (cases "startswith remainder (b @ ''/'')")
      case True
      then obtain rest where r: "remainder = b @ ''/'' @ rest"
        by (auto simp: startswith_def prefix_def)
      have "match_branch slug remainder (map Inr (b # bs)) = Inr (b, rest)"
        using True r by simp
      then have "0 < length (b # bs) \<and> remainder = (b # bs) ! 0 @ ''/'' @ rest
         \<and> (\<forall>j<0. \<not> (\<exists>r. remainder = (b # bs) ! j @ ''/'' @ r))
         \<and> match_branch slug remainder (map Inr (b # bs)) = Inr ((b # bs) ! 0, rest)"
        using r by simp
      then show ?thesis by blast
    next
      case False
      then have nb: "\<not> (\<exists>r. remainder = b @ ''/'' @ r)"
        by (auto simp: startswith_def prefix_def)
      have step: "match_branch slug remainder (map Inr (b # bs))
          = match_branch slug remainder (map Inr bs)"
        using False by simp
      from Cons.IH show ?thesis
      proof
        assume "\<exists>i rest. i < length bs \<and> remainder = bs ! i @ ''/'' @ rest
         \<and> (\<forall>j<i. \<not> (\<exists>r. remainder = bs ! j @ ''/'' @ r))
         \<and> match_branch slug remainder (map Inr bs) = Inr (bs ! i, rest)"
        then obtain i rest where i: "i < length bs" "remainder = bs ! i @ ''/'' @ rest"
          "\<forall>j<i. \<not> (\<exists>r. remainder = bs ! j @ ''/'' @ r)"
          "match_branch slug remainder (map Inr bs) = Inr (bs ! i, rest)" by blast
        have "\<forall>j<Suc i. \<not> (\<exists>r. remainder = (b # bs) ! j @ ''/'' @ r)"
          using nb i(3) by (auto simp: less_Suc_eq_0_disj)
        then have "Suc i < length (b # bs) \<and> remainder = (b # bs) ! Suc i @ ''/'' @ rest
           \<and> (\<forall>j<Suc i. \<not> (\<exists>r. remainder = (b # bs) ! j @ ''/'' @ r))
           \<and> match_branch slug remainder (map Inr (b # bs)) = Inr ((b # bs) ! Suc i, rest)"
          using i step by simp
        then show ?thesis by blast
      next
        assume "(\<forall>b \<in> set bs. \<not> (\<exists>r. remainder = b @ ''/'' @ r))
         \<and> match_branch slug remainder (map Inr bs) = Inl (InvalidSlug slug)"
        then show ?thesis using nb step by simp
      qed
    qed
  qed
  show "match_branch slug ''master-v2/ps1'' (map Inr [''master'', ''master-v2''])
        = Inr (''master-v2'', ''ps1'')"
    by (simp add: startswith_def)
  show "repo_branches env (''~/.local/share/push50/'' @ org @ ''/'' @ rp) = Inr branches \<longrightarrow>
        parse_branch env slug org rp remainder True
          = match_branch slug remainder (map Inr branches)"
    by (simp add: parse_branch_offline)
qed

text \<open>Online, when the clone gives no branch, the candidates are computed from the lines
  of the remote listing, one by one as the loop asks for them.\<close>

lemma parse_branch_online:
  assumes "parse_branch env slug org rp remainder True = Inl (InvalidSlug m)"
    and "ls_remote env (''https://github.com/'' @ org @ ''/'' @ rp) = Inr out"
  shows "parse_branch env slug org rp remainder False
     = match_branch slug remainder (map remote_branch (split out (CHR 0x0A)))"
  using assms by simp

text \<open>
  Claim C1, where the code departs from it. \<^verbatim>\<open>connect\<close> resolves the slug online
  (line 59). Without a clone and with a remote that has no branch, the listing is the
  empty string; \<^verbatim>\<open>"".split("\n")\<close> is the list of one empty line, and
  \<^verbatim>\<open>"".split("\t")[1]\<close> raises \<^verbatim>\<open>IndexError\<close> when the loop asks the generator of
  lines 220 and 221 for its first candidate, after the \<^verbatim>\<open>try\<close> of lines 215 to 225. So
  no candidate matches and the slug is not rejected with \<^verbatim>\<open>InvalidSlug\<close>: resolution
  raises \<^verbatim>\<open>IndexError\<close>. The offline path, on a clone without a branch, does raise
  \<^verbatim>\<open>InvalidSlug(slug)\<close>.
\<close>

theorem parse_slug_empty_remote_listing:
  "repo_branches git_env_empty_remote (''~/.local/share/push50/'' @ ''cs50'' @ ''/'' @ ''problems'')
     = Inl (GitError ''NoSuchPathError'')
   \<and> ls_remote git_env_empty_remote (''https://github.com/'' @ ''cs50'' @ ''/'' @ ''problems'')
     = Inr []
   \<and> map remote_branch (split [] (CHR 0x0A)) = [Inl IndexError]
   \<and> parse_branch git_env_empty_remote ''cs50/problems/master/hello'' ''cs50'' ''problems''
        ''master/hello'' False
     = Inl IndexError
   \<and> parse_slug git_env_empty_remote ''cs50/problems/master/hello'' False = Inl IndexError
   \<and> parse_slug git_env_empty_clone ''cs50/problems/master/hello'' True
     = Inl (InvalidSlug ''cs50/problems/master/hello'')"
proof -
  have a: "repo_branches git_env_empty_remote
        (''~/.local/share/push50/'' @ ''cs50'' @ ''/'' @ ''problems'')
     = Inl (GitError ''NoSuchPathError'')"
    "ls_remote git_env_empty_remote (''https://github.com/'' @ ''cs50'' @ ''/'' @ ''problems'')
     = Inr []"
    by (simp_all add: git_env_empty_remote_def)
  have b: "map remote_branch (split [] (CHR 0x0A)) = [Inl IndexError]"
    by (simp add: remote_branch_def getindex_def)
  have c: "parse_branch git_env_empty_remote ''cs50/problems/master/hello'' ''cs50'' ''problems''
        ''master/hello'' False
     = Inl IndexError"
    using a b by simp
  have d: "parse_slug git_env_empty_remote ''cs50/problems/master/hello'' False = Inl IndexError"
    using c
    by (simp add: parse_slug_def startswith_def endswith_def suffix_def find_from_def
        getindex_def)
  have e: "parse_slug git_env_empty_clone ''cs50/problems/master/hello'' True
     = Inl (InvalidSlug ''cs50/problems/master/hello'')"
    by (simp add: parse_slug_def startswith_def endswith_def suffix_def find_from_def
        getindex_def git_env_empty_clone_def)
  from a b c d e show ?thesis by (intro conjI)
qed

text \<open>
  Claim C8. Every slug with a leading slash, a trailing slash or both is rejected with
  \<^verbatim>\<open>InvalidSlug\<close>. The message names the case (both, leading, trailing) and suggests
  the slug without its leading and trailing slashes: the slug is some slashes, the
  suggestion, some slashes, with slashes removed only at an end where the slug has one,
  and the suggestion neither starts nor ends with a slash. Two slugs in different cases
  never get the same error.
\<close>

theorem parse_slug_rejects_outer_slashes:
  assumes "startswith slug ''/'' \<or> endswith slug ''/''"
  shows "parse_slug env slug offline =
       Inl (InvalidSlug (''Invalid slug. Did you mean '' @ strip slug ''/'' @
         (if startswith slug ''/'' \<and> endswith slug ''/''
          then '', without the leading and trailing slashes?''
          else if startswith slug ''/'' then '', without the leading slash?''
          else '', without the trailing slash?'')))
     \<and> (\<exists>n m. slug = replicate n CHR ''/'' @ strip slug ''/'' @ replicate m CHR ''/''
          \<and> (0 < n \<longrightarrow> startswith slug ''/'') \<and> (0 < m \<longrightarrow> endswith slug ''/''))
     \<and> \<not> startswith (strip slug ''/'') ''/'' \<and> \<not> endswith (strip slug ''/'') ''/''
     \<and> (\<forall>slug' env' offline'.
          (startswith slug' ''/'' \<or> endswith slug' ''/'')
          \<and> (startswith slug ''/'' \<noteq> startswith slug' ''/''
               \<or> endswith slug ''/'' \<noteq> endswith slug' ''/'')
          \<longrightarrow> parse_slug env' slug' offline' \<noteq> parse_slug env slug offline)"
proof -
  have a: "parse_slug env slug offline =
       Inl (InvalidSlug (''Invalid slug. Did you mean '' @ strip slug ''/'' @
         (if startswith slug ''/'' \<and> endswith slug ''/''
          then '', without the leading and trailing slashes?''
          else if startswith slug ''/'' then '', without the leading slash?''
          else '', without the trailing slash?'')))"
    using assms by (rule parse_slug_slash_message)
  have b: "\<exists>n m. slug = replicate n CHR ''/'' @ strip slug ''/'' @ replicate m CHR ''/''
          \<and> (0 < n \<longrightarrow> startswith slug ''/'') \<and> (0 < m \<longrightarrow> endswith slug ''/'')"
    by (rule strip_decomp)
  have c: "\<not> startswith (strip slug ''/'') ''/'' \<and> \<not> endswith (strip slug ''/'') ''/''"
    by (rule strip_no_slash)
  have d: "\<forall>slug' env' offline'.
          (startswith slug' ''/'' \<or> endswith slug' ''/'')
          \<and> (startswith slug ''/'' \<noteq> startswith slug' ''/''
               \<or> endswith slug ''/'' \<noteq> endswith slug' ''/'')
          \<longrightarrow> parse_slug env' slug' offline' \<noteq> parse_slug env slug offline"
    using assms parse_slug_slash_distinct by blast
  from a b c d show ?thesis by blast
qed

theorem parse_slug_rejects_outer_slashes_witness:
  "parse_slug \<lparr>repo_branches = (\<lambda>p. Inr [''master'']), ls_remote = (\<lambda>u. Inr [])\<rparr>
       ''/cs50/problems2/master/hello'' False
     = Inl (InvalidSlug
         ''Invalid slug. Did you mean cs50/problems2/master/hello, without the leading slash?'')
   \<and> parse_slug \<lparr>repo_branches = (\<lambda>p. Inr [''master'']), ls_remote = (\<lambda>u. Inr [])\<rparr>
       ''cs50/problems2/master/hello/'' False
     \<noteq> parse_slug \<lparr>repo_branches = (\<lambda>p. Inr [''master'']), ls_remote = (\<lambda>u. Inr [])\<rparr>
       ''/cs50/problems2/master/hello'' False"
proof -
  have h: "startswith ''/cs50/problems2/master/hello'' ''/''
      \<or> endswith ''/cs50/problems2/master/hello'' ''/''"
    by (simp add: startswith_def)
  have t: "startswith ''cs50/problems2/master/hello/'' ''/''
      \<or> endswith ''cs50/problems2/master/hello/'' ''/''"
    by (simp add: endswith_def suffix_def)
  have d: "startswith ''/cs50/problems2/master/hello'' ''/''
      \<noteq> startswith ''cs50/problems2/master/hello/'' ''/''"
    by (simp add: startswith_def)
  note th = parse_slug_rejects_outer_slashes [OF h,
      of "\<lparr>repo_branches = (\<lambda>p. Inr [''master'']), ls_remote = (\<lambda>u. Inr [])\<rparr>" False]
  from th have "parse_slug \<lparr>repo_branches = (\<lambda>p. Inr [''master'']), ls_remote = (\<lambda>u. Inr [])\<rparr>
       ''/cs50/problems2/master/hello'' False =
       Inl (InvalidSlug (''Invalid slug. Did you mean ''
         @ strip ''/cs50/problems2/master/hello'' ''/'' @
         (if startswith ''/cs50/problems2/master/hello'' ''/''
             \<and> endswith ''/cs50/problems2/master/hello'' ''/''
          then '', without the leading and trailing slashes?''
          else if startswith ''/cs50/problems2/master/hello'' ''/''
          then '', without the leading slash?''
          else '', without the trailing slash?'')))"
    by (rule conjunct1)
  then have a: "parse_slug \<lparr>repo_branches = (\<lambda>p. Inr [''master'']), ls_remote = (\<lambda>u. Inr [])\<rparr>
       ''/cs50/problems2/master/hello'' False
     = Inl (InvalidSlug
         ''Invalid slug. Did you mean cs50/problems2/master/hello, without the leading slash?'')"
    by (simp add: startswith_def endswith_def strip_def suffix_def)
  from th t d have b: "parse_slug \<lparr>repo_branches = (\<lambda>p. Inr [''master'']), ls_remote = (\<lambda>u. Inr [])\<rparr>
       ''cs50/problems2/master/hello/'' False
     \<noteq> parse_slug \<lparr>repo_branches = (\<lambda>p. Inr [''master'']), ls_remote = (\<lambda>u. Inr [])\<rparr>
       ''/cs50/problems2/master/hello'' False"
    by blast
  from a b show ?thesis by (rule conjI)
qed

section \<open>Properties of authentication\<close>

subsection \<open>Rules for running a computation step by step\<close>

lemma io_bind_assoc:
  "io_bind (io_bind m g) f = io_bind m (\<lambda>x. io_bind (g x) f)"
  by (simp add: io_bind_def split: sum.splits prod.splits)

lemma io_bind_return: "io_bind (io_return x) f = f x"
  by (simp add: io_bind_def io_return_def split: prod.splits)

lemma io_bind_raise: "io_bind (io_raise e) f = io_raise e"
  by (simp add: io_bind_def io_raise_def)

lemma io_bind_if:
  "io_bind (if c then a else b) f = (if c then io_bind a f else io_bind b f)"
  by simp

lemma io_bind_callE:
  assumes "io_bind (io_call ev out) f = (r, t)"
  obtains (raised) e where "out = Inl e" and "r = Inl e" and "t = [ev]"
    | (returned) x t' where "out = Inr x" and "f x = (r, t')" and "t = ev # t'"
  using assms by (auto simp: io_bind_def io_call_def split: sum.splits prod.splits)

lemma io_bind_pureE:
  assumes "io_bind (v, []) f = (r, t)"
  obtains (raised) e where "v = Inl e" and "r = Inl e" and "t = []"
    | (returned) x where "v = Inr x" and "f x = (r, t)"
  using assms by (auto simp: io_bind_def split: sum.splits prod.splits)

lemma io_raise_eq: "io_raise e = (r, t) \<longleftrightarrow> r = Inl e \<and> t = []"
  by (auto simp: io_raise_def)

lemma io_return_eq: "io_return x = (r, t) \<longleftrightarrow> r = Inr x \<and> t = []"
  by (auto simp: io_return_def)

lemmas io_eqs = io_bind_assoc io_bind_return io_bind_raise io_bind_if io_raise_eq io_return_eq

lemmas io_defs = io_bind_def io_call_def io_try_def io_raise_def io_return_def

lemma event_neq [simp]:
  "approve_call f \<noteq> Yield u" "Yield u \<noteq> approve_call f"
  "cache_exit_call env \<noteq> Yield u" "Yield u \<noteq> cache_exit_call env"
  "keychain_erase_call f \<noteq> Yield u" "Yield u \<noteq> keychain_erase_call f"
  "approve_call f \<noteq> RequestsGet url un pw" "RequestsGet url un pw \<noteq> approve_call f"
  "cache_exit_call env \<noteq> RequestsGet url un pw" "RequestsGet url un pw \<noteq> cache_exit_call env"
  "keychain_erase_call f \<noteq> RequestsGet url un pw"
  "RequestsGet url un pw \<noteq> keychain_erase_call f"
  "keychain_erase_call f \<noteq> cache_exit_call env"
  "cache_exit_call env \<noteq> keychain_erase_call f"
  by (simp_all add: approve_call_def cache_exit_call_def keychain_erase_call_def)

subsection \<open>The handler and the whole of HTTPS authentication\<close>

text \<open>What the handler of lines 364 to 371 does, by what git and the temporary file
  answer.\<close>

lemma authenticate_https_except_cases:
  "authenticate_https_except env e =
     (case git_credential_cache env of
        Inl e1 \<Rightarrow> (Inl e1, [cache_exit_call env])
      | Inr _ \<Rightarrow>
         (case temporary_file env keychain_contents of
            Inl e2 \<Rightarrow> (Inl (if is_GitError e2 then e else e2),
               [cache_exit_call env, TemporaryFile keychain_contents])
          | Inr _ \<Rightarrow>
             (case git_credential_osxkeychain env of
                Inl e3 \<Rightarrow> (Inl (if is_GitError e3 then e else e3),
                  [cache_exit_call env, TemporaryFile keychain_contents,
                   keychain_erase_call (concat keychain_contents)])
              | Inr _ \<Rightarrow> (Inl e,
                  [cache_exit_call env, TemporaryFile keychain_contents,
                   keychain_erase_call (concat keychain_contents)]))))"
  by (simp add: authenticate_https_except_def io_defs file_buffer_def split: sum.splits)

lemma authenticate_https_except_raises:
  "\<exists>e'. fst (authenticate_https_except env e) = Inl e'"
  by (simp add: authenticate_https_except_cases split: sum.splits)

lemma authenticate_https_except_events:
  "set (snd (authenticate_https_except env e)) \<subseteq>
     {cache_exit_call env, TemporaryFile keychain_contents,
      keychain_erase_call (concat keychain_contents)}"
  by (simp add: authenticate_https_except_cases split: sum.splits)

lemma authenticate_https_cases:
  "authenticate_https env org =
     (case mkdir env of
        Inl e0 \<Rightarrow> (Inl e0, [Mkdir (cache_dir env)])
      | Inr _ \<Rightarrow>
         (case fst (authenticate_https_try env org) of
            Inr u \<Rightarrow> (Inr u, Mkdir (cache_dir env) # snd (authenticate_https_try env org))
          | Inl e \<Rightarrow>
              (fst (authenticate_https_except env e),
               Mkdir (cache_dir env) # snd (authenticate_https_try env org)
                 @ snd (authenticate_https_except env e))))"
  by (simp add: authenticate_https_def io_defs split: sum.splits prod.splits)

subsection \<open>The block under \<^verbatim>\<open>try\<close>\<close>

lemma try_result_yielded:
  assumes "authenticate_https_try env org = (Inr u, t)"
  shows "Yield u \<in> set t"
  using assms
  by (auto simp: authenticate_https_try_def io_eqs file_buffer_def check_response_def Let_def
      elim!: io_bind_callE io_bind_pureE split: if_splits option.splits)

lemma try_yield:
  assumes "authenticate_https_try env org = (r, t)" and "Yield u \<in> set t"
  shows "(\<exists>un pw. password u = Some pw \<and> RequestsGet api_url un pw \<in> set t)
       \<and> email u = name u @ ''@users.noreply.github.com''
       \<and> repo u = ''https://'' @ name u @ ''@github.com/'' @ org @ ''/'' @ name u"
  using assms
  by (auto simp: authenticate_https_try_def io_eqs file_buffer_def check_response_def Let_def
      elim!: io_bind_callE io_bind_pureE split: if_splits option.splits) (blast+)?

lemma try_otp:
  assumes "authenticate_https_try env org = (r, t)"
    and "requests_get env = Inr res" and "headers res ''X-GitHub-OTP'' \<noteq> None"
  shows "(\<forall>u. r \<noteq> Inr u)
     \<and> (\<forall>un pw. RequestsGet api_url un pw \<in> set t \<longrightarrow>
           r = Inl (Error otp_message) \<and> last t = RequestsGet api_url un pw)"
  using assms
  by (auto simp: authenticate_https_try_def io_eqs file_buffer_def check_response_def Let_def
      elim!: io_bind_callE io_bind_pureE split: if_splits option.splits)

subsection \<open>The claims on authentication\<close>

text \<open>
  Claim C4. When the SSH probe has spawned its process and one of the four patterns has
  matched, the process is closed before anything is yielded, whichever pattern it was; and
  once \<^verbatim>\<open>close\<close> has returned, the function yields a \<^verbatim>\<open>User\<close> exactly when
  the pattern is the success banner (index 0), with the name the banner captured and
  no password, and yields \<^verbatim>\<open>None\<close>, raising nothing, for the passphrase prompt, the
  permission-denied message and the host-key question (indices 1, 2, 3).
\<close>

theorem authenticate_ssl_outcomes:
  assumes "ssh_spawn env = Inr ()" and "ssh_expect env = Inr m"
    and "index m = 0 \<longrightarrow> groups m = [username]"
  shows "snd (authenticate_ssl env org)
        = [Spawn ''ssh git@github.com'', Expect ssh_patterns, Close]
     \<and> (ssh_close env = Inr () \<longrightarrow>
          fst (authenticate_ssl env org) =
            Inr (if index m = 0
                 then Some \<lparr>name = username, password = None,
                            email = username @ ''@users.noreply.github.com'',
                            repo = ''git@github.com/'' @ org @ ''/'' @ username\<rparr>
                 else None))
     \<and> (ssh_close env = Inr () \<longrightarrow>
          (\<exists>u. fst (authenticate_ssl env org) = Inr (Some u)) = (index m = 0))"
  using assms
  by (auto simp: authenticate_ssl_def io_defs getindex_def split: sum.splits)

theorem authenticate_ssl_outcomes_witness:
  "fst (authenticate_ssl ssh_env_banner ''cs50'')
     = Inr (Some \<lparr>name = ''alice'', password = None,
                   email = ''alice@users.noreply.github.com'',
                   repo = ''git@github.com/cs50/alice''\<rparr>)
   \<and> fst (authenticate_ssl ssh_env_denied ''cs50'') = Inr None
   \<and> snd (authenticate_ssl ssh_env_denied ''cs50'')
     = [Spawn ''ssh git@github.com'', Expect ssh_patterns, Close]"
proof -
  have b: "ssh_spawn ssh_env_banner = Inr ()"
    "ssh_expect ssh_env_banner = Inr \<lparr>index = 0, groups = [''alice'']\<rparr>"
    "index \<lparr>index = 0, groups = [''alice'']\<rparr> = 0 \<longrightarrow>
       groups \<lparr>index = 0, groups = [''alice'']\<rparr> = [''alice'']"
    "ssh_close ssh_env_banner = Inr ()"
    by (simp_all add: ssh_env_banner_def)
  have d: "ssh_spawn ssh_env_denied = Inr ()"
    "ssh_expect ssh_env_denied = Inr \<lparr>index = 2, groups = []\<rparr>"
    "index \<lparr>index = 2, groups = []\<rparr> = 0 \<longrightarrow>
       groups \<lparr>index = 2, groups = []\<rparr> = [''alice'']"
    "ssh_close ssh_env_denied = Inr ()"
    by (simp_all add: ssh_env_denied_def)
  show ?thesis
    using authenticate_ssl_outcomes [OF b(1) b(2) b(3), of "''cs50''"] b(4)
      authenticate_ssl_outcomes [OF d(1) d(2) d(3), of "''cs50''"] d(4)
    by simp
qed

text \<open>
  Claim C6. Every \<^verbatim>\<open>User\<close> that HTTPS authentication yields carries a password, the
  one sent to the API; every \<^verbatim>\<open>User\<close> that SSH authentication yields has the password
  \<^verbatim>\<open>None\<close>. In both the email is the name followed by \<open>@users.noreply.github.com\<close>;
  the repo is \<open>https://name@github.com/org/name\<close> for HTTPS and
  \<open>git@github.com/org/name\<close>, with no colon after the host, for SSH. What HTTPS
  authentication returns is a user it yielded.
\<close>

theorem user_fields:
  "(\<forall>u. Yield u \<in> set (snd (authenticate_https henv org)) \<longrightarrow>
        (\<exists>un pw. password u = Some pw
           \<and> RequestsGet api_url un pw \<in> set (snd (authenticate_https henv org)))
        \<and> email u = name u @ ''@users.noreply.github.com''
        \<and> repo u = ''https://'' @ name u @ ''@github.com/'' @ org @ ''/'' @ name u)
   \<and> (\<forall>u. fst (authenticate_https henv org) = Inr u \<longrightarrow>
        Yield u \<in> set (snd (authenticate_https henv org)))
   \<and> (\<forall>u. fst (authenticate_ssl senv org) = Inr (Some u) \<longrightarrow>
        password u = None
        \<and> email u = name u @ ''@users.noreply.github.com''
        \<and> repo u = ''git@github.com/'' @ org @ ''/'' @ name u)"
proof (intro conjI allI impI)
  fix u
  assume y: "Yield u \<in> set (snd (authenticate_https henv org))"
  have ne: "Yield u \<notin> set (snd (authenticate_https_except henv e))" for e
    using authenticate_https_except_events [of henv e] by auto
  from y ne have yt: "Yield u \<in> set (snd (authenticate_https_try henv org))"
    by (auto simp: authenticate_https_cases split: sum.splits)
  have sub: "set (snd (authenticate_https_try henv org))
      \<subseteq> set (snd (authenticate_https henv org))"
    using y by (auto simp: authenticate_https_cases split: sum.splits)
  have t: "authenticate_https_try henv org
      = (fst (authenticate_https_try henv org), snd (authenticate_https_try henv org))"
    by simp
  note f = try_yield [OF t yt]
  from f sub show "\<exists>un pw. password u = Some pw
           \<and> RequestsGet api_url un pw \<in> set (snd (authenticate_https henv org))"
    by blast
  from f show "email u = name u @ ''@users.noreply.github.com''" by blast
  from f show "repo u = ''https://'' @ name u @ ''@github.com/'' @ org @ ''/'' @ name u"
    by blast
next
  fix u
  assume r: "fst (authenticate_https henv org) = Inr u"
  have "fst (authenticate_https_try henv org) = Inr u"
  proof (cases "fst (authenticate_https_try henv org)")
    case (Inl e)
    obtain e' where "fst (authenticate_https_except henv e) = Inl e'"
      using authenticate_https_except_raises by blast
    with Inl r show ?thesis
      by (auto simp: authenticate_https_cases split: sum.splits)
  next
    case (Inr v)
    with r show ?thesis
      by (auto simp: authenticate_https_cases split: sum.splits)
  qed
  then have "authenticate_https_try henv org = (Inr u, snd (authenticate_https_try henv org))"
    by (metis prod.collapse)
  then have "Yield u \<in> set (snd (authenticate_https_try henv org))"
    by (rule try_result_yielded)
  then show "Yield u \<in> set (snd (authenticate_https henv org))"
    using r by (auto simp: authenticate_https_cases split: sum.splits)
next
  fix u
  assume "fst (authenticate_ssl senv org) = Inr (Some u)"
  then have u: "\<exists>n. u = \<lparr>name = n, password = None,
        email = n @ ''@users.noreply.github.com'',
        repo = ''git@github.com/'' @ org @ ''/'' @ n\<rparr>"
    by (auto simp: authenticate_ssl_def io_defs getindex_def split: sum.splits if_splits)
  from u show "password u = None" by auto
  from u show "email u = name u @ ''@users.noreply.github.com''" by auto
  from u show "repo u = ''git@github.com/'' @ org @ ''/'' @ name u" by auto
qed

theorem user_fields_witness:
  "Yield \<lparr>name = ''alice'', password = Some ''secret'',
           email = ''alice@users.noreply.github.com'',
           repo = ''https://alice@github.com/cs50/alice''\<rparr>
     \<in> set (snd (authenticate_https (https_env_of response_ok) ''cs50''))
   \<and> RequestsGet api_url (Some ''Alice'') ''secret''
     \<in> set (snd (authenticate_https (https_env_of response_ok) ''cs50''))
   \<and> fst (authenticate_ssl ssh_env_banner ''cs50'')
     = Inr (Some \<lparr>name = ''alice'', password = None,
                   email = ''alice@users.noreply.github.com'',
                   repo = ''git@github.com/cs50/alice''\<rparr>)"
proof -
  have r: "fst (authenticate_https (https_env_of response_ok) ''cs50'')
      = Inr \<lparr>name = ''alice'', password = Some ''secret'',
           email = ''alice@users.noreply.github.com'',
           repo = ''https://alice@github.com/cs50/alice''\<rparr>"
    by (simp add: authenticate_https_def authenticate_https_try_def https_env_of_def
        response_ok_def io_defs check_response_def file_buffer_def Let_def)
  have q: "RequestsGet api_url (Some ''Alice'') ''secret''
     \<in> set (snd (authenticate_https (https_env_of response_ok) ''cs50''))"
    by (simp add: authenticate_https_def authenticate_https_try_def https_env_of_def
        response_ok_def io_defs check_response_def file_buffer_def Let_def)
  have s: "fst (authenticate_ssl ssh_env_banner ''cs50'')
     = Inr (Some \<lparr>name = ''alice'', password = None,
                   email = ''alice@users.noreply.github.com'',
                   repo = ''git@github.com/cs50/alice''\<rparr>)"
    by (simp add: authenticate_ssl_def ssh_env_banner_def io_defs getindex_def)
  from user_fields [of "https_env_of response_ok" "''cs50''" ssh_env_banner] r
  have "Yield \<lparr>name = ''alice'', password = Some ''secret'',
           email = ''alice@users.noreply.github.com'',
           repo = ''https://alice@github.com/cs50/alice''\<rparr>
     \<in> set (snd (authenticate_https (https_env_of response_ok) ''cs50''))"
    by blast
  with q s show ?thesis by blast
qed

text \<open>
  Claim C5. When the response of the API carries the header \<open>X-GitHub-OTP\<close>, the
  checks on the response raise the two-factor error whatever the status code is, and never
  one of the two messages of the status check. In HTTPS authentication as a whole no
  user is then returned, and once the request has been sent the block under \<^verbatim>\<open>try\<close>
  ends with the two-factor error, the request being the last call it makes; this error
  is what the function raises when the clean-up of the handler goes through.
\<close>

theorem otp_header_short_circuits:
  assumes "requests_get env = Inr res" and "headers res ''X-GitHub-OTP'' \<noteq> None"
  shows "check_response res = io_raise (Error otp_message)
     \<and> check_response (res\<lparr>status_code := code\<rparr>) = io_raise (Error otp_message)
     \<and> otp_message \<noteq> ''Invalid username and/or password.''
     \<and> otp_message \<noteq> ''Could not authenticate user.''
     \<and> (\<forall>u. fst (authenticate_https env org) \<noteq> Inr u)
     \<and> (\<forall>un pw. RequestsGet api_url un pw \<in> set (snd (authenticate_https_try env org)) \<longrightarrow>
           fst (authenticate_https_try env org) = Inl (Error otp_message)
           \<and> last (snd (authenticate_https_try env org)) = RequestsGet api_url un pw)
     \<and> (\<forall>un pw. RequestsGet api_url un pw \<in> set (snd (authenticate_https_try env org))
           \<and> mkdir env = Inr () \<and> git_credential_cache env = Inr ()
           \<and> (\<forall>e'. temporary_file env keychain_contents = Inl e' \<longrightarrow> is_GitError e')
           \<and> (\<forall>e'. git_credential_osxkeychain env = Inl e' \<longrightarrow> is_GitError e') \<longrightarrow>
           fst (authenticate_https env org) = Inl (Error otp_message))"
proof -
  have t: "authenticate_https_try env org
      = (fst (authenticate_https_try env org), snd (authenticate_https_try env org))"
    by simp
  note o = try_otp [OF t assms]
  have a: "check_response res = io_raise (Error otp_message)"
    "check_response (res\<lparr>status_code := code\<rparr>) = io_raise (Error otp_message)"
    using assms(2) by (simp_all add: check_response_def)
  have b: "otp_message \<noteq> ''Invalid username and/or password.''"
    "otp_message \<noteq> ''Could not authenticate user.''"
    by (simp_all add: otp_message_def)
  have c: "fst (authenticate_https env org) \<noteq> Inr u" for u
  proof (cases "fst (authenticate_https_try env org)")
    case (Inl e)
    obtain e' where "fst (authenticate_https_except env e) = Inl e'"
      using authenticate_https_except_raises by blast
    with Inl show ?thesis
      by (auto simp: authenticate_https_cases split: sum.splits)
  next
    case (Inr v)
    with o show ?thesis by simp
  qed
  have d: "\<forall>un pw. RequestsGet api_url un pw \<in> set (snd (authenticate_https_try env org))
           \<and> mkdir env = Inr () \<and> git_credential_cache env = Inr ()
           \<and> (\<forall>e'. temporary_file env keychain_contents = Inl e' \<longrightarrow> is_GitError e')
           \<and> (\<forall>e'. git_credential_osxkeychain env = Inl e' \<longrightarrow> is_GitError e') \<longrightarrow>
           fst (authenticate_https env org) = Inl (Error otp_message)"
  proof (intro allI impI)
    fix un pw
    assume h: "RequestsGet api_url un pw \<in> set (snd (authenticate_https_try env org))
           \<and> mkdir env = Inr () \<and> git_credential_cache env = Inr ()
           \<and> (\<forall>e'. temporary_file env keychain_contents = Inl e' \<longrightarrow> is_GitError e')
           \<and> (\<forall>e'. git_credential_osxkeychain env = Inl e' \<longrightarrow> is_GitError e')"
    then have t: "fst (authenticate_https_try env org) = Inl (Error otp_message)"
      using o by blast
    show "fst (authenticate_https env org) = Inl (Error otp_message)"
      using h t
      by (auto simp: authenticate_https_cases authenticate_https_except_cases
          split: sum.splits)
  qed
  from a b c o d show ?thesis by blast
qed

lemma https_otp_run:
  "authenticate_https_try (https_env_of response_otp) ''cs50'' =
     (Inl (Error otp_message),
      [Spawn (fill_command (https_env_of response_otp)), Sendline [], Expect fill_patterns,
       Close, GetUsername ''Github username: '', GetPassword ''Github password: '',
       RequestsGet api_url (Some ''Alice'') ''secret''])"
  by (simp add: authenticate_https_try_def https_env_of_def response_otp_def io_defs
      check_response_def file_buffer_def Let_def)

theorem otp_header_short_circuits_witness:
  "requests_get (https_env_of response_otp) = Inr response_otp
   \<and> headers response_otp ''X-GitHub-OTP'' \<noteq> None
   \<and> status_code response_otp = 401
   \<and> RequestsGet api_url (Some ''Alice'') ''secret''
       \<in> set (snd (authenticate_https_try (https_env_of response_otp) ''cs50''))
   \<and> fst (authenticate_https_try (https_env_of response_otp) ''cs50'')
       = Inl (Error otp_message)
   \<and> fst (authenticate_https (https_env_of response_otp) ''cs50'')
       = Inl (Error otp_message)"
proof -
  have h: "requests_get (https_env_of response_otp) = Inr response_otp"
    "headers response_otp ''X-GitHub-OTP'' \<noteq> None"
    "status_code response_otp = 401"
    by (simp_all add: https_env_of_def response_otp_def)
  have q: "RequestsGet api_url (Some ''Alice'') ''secret''
       \<in> set (snd (authenticate_https_try (https_env_of response_otp) ''cs50''))"
    by (simp add: https_otp_run)
  have k: "mkdir (https_env_of response_otp) = Inr ()"
    "git_credential_cache (https_env_of response_otp) = Inr ()"
    "\<forall>e'. temporary_file (https_env_of response_otp) keychain_contents = Inl e'
        \<longrightarrow> is_GitError e'"
    "\<forall>e'. git_credential_osxkeychain (https_env_of response_otp) = Inl e' \<longrightarrow> is_GitError e'"
    by (simp_all add: https_env_of_def)
  note th = otp_header_short_circuits [OF h(1) h(2), of 401 "''cs50''"]
  from th q
  have t: "fst (authenticate_https_try (https_env_of response_otp) ''cs50'')
       = Inl (Error otp_message)"
    by blast
  from th q k
  have w: "fst (authenticate_https (https_env_of response_otp) ''cs50'')
       = Inl (Error otp_message)"
    by blast
  from h q t w show ?thesis by (intro conjI)
qed

text \<open>
  What the handler does on every run in which the block under \<^verbatim>\<open>try\<close> raises: it
  first issues the credential-cache command, with the builtin \<^verbatim>\<open>exit\<close> as its
  argument. If that command returns, the keychain erase is attempted next, and if the
  erase returns or fails with a \<^verbatim>\<open>GitError\<close> the original exception is raised again,
  unchanged. An exception of another class from the keychain erase propagates.
\<close>

lemma authenticate_https_handler:
  assumes "mkdir env = Inr ()" and "fst (authenticate_https_try env org) = Inl e"
  shows "(\<exists>t'. snd (authenticate_https env org)
            = Mkdir (cache_dir env) # snd (authenticate_https_try env org)
                @ cache_exit_call env # t')
     \<and> (git_credential_cache env = Inr () \<longrightarrow>
          (\<exists>t'. snd (authenticate_https env org)
            = Mkdir (cache_dir env) # snd (authenticate_https_try env org)
                @ cache_exit_call env # TemporaryFile keychain_contents # t'))
     \<and> (git_credential_cache env = Inr () \<and> temporary_file env keychain_contents = Inr () \<longrightarrow>
          snd (authenticate_https env org)
            = Mkdir (cache_dir env) # snd (authenticate_https_try env org)
                @ [cache_exit_call env, TemporaryFile keychain_contents,
                   keychain_erase_call (concat keychain_contents)])
     \<and> (git_credential_cache env = Inr ()
          \<and> (\<forall>e'. temporary_file env keychain_contents = Inl e' \<longrightarrow> is_GitError e')
          \<and> (\<forall>e'. git_credential_osxkeychain env = Inl e' \<longrightarrow> is_GitError e') \<longrightarrow>
          fst (authenticate_https env org) = Inl e)
     \<and> (\<forall>e'. git_credential_cache env = Inr () \<and> \<not> is_GitError e'
          \<and> (temporary_file env keychain_contents = Inl e'
               \<or> temporary_file env keychain_contents = Inr ()
                  \<and> git_credential_osxkeychain env = Inl e') \<longrightarrow>
          fst (authenticate_https env org) = Inl e')"
  using assms
  by (auto simp: authenticate_https_cases authenticate_https_except_cases split: sum.splits)

text \<open>What the keychain erase reads when it is reached: the two entries on one line,
  since \<^verbatim>\<open>writelines\<close> adds no line ends.\<close>

lemma keychain_erase_input: "concat keychain_contents = ''host=github.comprotocol=https''"
  by (simp add: keychain_contents_def)

lemma https_401_runs:
  "fst (authenticate_https_try https_env_cache_fails org)
     = Inl (Error ''Invalid username and/or password.'')"
  by (simp add: authenticate_https_try_def
      https_env_cache_fails_def https_env_of_def response_401_def io_defs
      check_response_def file_buffer_def Let_def)

text \<open>
  Claim C2, where the code departs from it. Nothing is cached, the user types \<open>Alice\<close>
  and \<open>secret\<close>, the API answers 401, and \<^verbatim>\<open>git credential-cache\<close> fails. The block
  under \<^verbatim>\<open>try\<close> raises the invalid-password \<^verbatim>\<open>Error\<close>. The handler calls
  \<^verbatim>\<open>git.credential_cache(exit, socket=socket)\<close> at line 365, outside the
  \<^verbatim>\<open>try\<close> of lines 366 to 370: the \<^verbatim>\<open>GitError\<close> of that call is not ignored, it
  leaves the function in place of the \<^verbatim>\<open>Error\<close>, and the keychain erase is not
  attempted. The argument of the call is the builtin \<^verbatim>\<open>exit\<close>, not the string
  \<^verbatim>\<open>"exit"\<close>. The docstring of line 317 says that the function raises \<^verbatim>\<open>Error\<close>
  when it does not yield, and the keychain erase of lines 366 to 370 is guarded.
\<close>

theorem https_cache_failure_replaces_error:
  "fst (authenticate_https_try https_env_cache_fails ''cs50'')
     = Inl (Error ''Invalid username and/or password.'')
   \<and> git_credential_cache https_env_cache_fails = Inl (GitError ''credential-cache'')
   \<and> authenticate_https https_env_cache_fails ''cs50''
     = (Inl (GitError ''credential-cache''),
        [Mkdir ''/home/alice/.git-credential-cache'',
         Spawn (fill_command https_env_cache_fails), Sendline [], Expect fill_patterns,
         Close, GetUsername ''Github username: '', GetPassword ''Github password: '',
         RequestsGet api_url (Some ''Alice'') ''secret'',
         GitCall [] ''credential_cache'' [BuiltinExit]
           [(''socket'', ''/home/alice/.git-credential-cache/push50'')] None])
   \<and> fst (authenticate_https https_env_cache_fails ''cs50'')
     \<noteq> Inl (Error ''Invalid username and/or password.'')
   \<and> keychain_erase_call (concat keychain_contents)
     \<notin> set (snd (authenticate_https https_env_cache_fails ''cs50''))"
proof -
  have a: "fst (authenticate_https_try https_env_cache_fails ''cs50'')
     = Inl (Error ''Invalid username and/or password.'')"
    by (simp add: https_401_runs)
  have b: "git_credential_cache https_env_cache_fails = Inl (GitError ''credential-cache'')"
    "mkdir https_env_cache_fails = Inr ()"
    by (simp_all add: https_env_cache_fails_def https_env_of_def)
  have t: "snd (authenticate_https_try https_env_cache_fails ''cs50'')
     = [Spawn (fill_command https_env_cache_fails), Sendline [], Expect fill_patterns,
       Close, GetUsername ''Github username: '', GetPassword ''Github password: '',
       RequestsGet api_url (Some ''Alice'') ''secret'']"
    by (simp add: authenticate_https_try_def https_env_cache_fails_def https_env_of_def
      response_401_def io_defs check_response_def file_buffer_def Let_def)
  have h: "cache_dir https_env_cache_fails = ''/home/alice/.git-credential-cache''"
    "cache_exit_call https_env_cache_fails
      = GitCall [] ''credential_cache'' [BuiltinExit]
          [(''socket'', ''/home/alice/.git-credential-cache/push50'')] None"
    by (simp_all add: cache_exit_call_def socket_def cache_dir_def https_env_cache_fails_def
        https_env_of_def)
  have c: "authenticate_https https_env_cache_fails ''cs50''
     = (Inl (GitError ''credential-cache''),
        Mkdir (cache_dir https_env_cache_fails)
          # snd (authenticate_https_try https_env_cache_fails ''cs50'')
          @ [cache_exit_call https_env_cache_fails])"
    using a b by (simp add: authenticate_https_cases authenticate_https_except_cases)
  have c': "authenticate_https https_env_cache_fails ''cs50''
     = (Inl (GitError ''credential-cache''),
        [Mkdir ''/home/alice/.git-credential-cache'',
         Spawn (fill_command https_env_cache_fails), Sendline [], Expect fill_patterns,
         Close, GetUsername ''Github username: '', GetPassword ''Github password: '',
         RequestsGet api_url (Some ''Alice'') ''secret'',
         GitCall [] ''credential_cache'' [BuiltinExit]
           [(''socket'', ''/home/alice/.git-credential-cache/push50'')] None])"
    unfolding c t h by simp
  have d: "keychain_erase_call (concat keychain_contents)
     \<notin> set (snd (authenticate_https https_env_cache_fails ''cs50''))"
    unfolding c' by (simp add: keychain_erase_call_def)
  have e: "fst (authenticate_https https_env_cache_fails ''cs50'')
     \<noteq> Inl (Error ''Invalid username and/or password.'')"
    unfolding c' by simp
  from a b(1) c' e d show ?thesis by (intro conjI)
qed

section \<open>Properties of the merge\<close>

subsection \<open>Dictionaries\<close>

lemma map_of_setitem: "map_of (setitem d k v) = (map_of d)(k \<mapsto> v)"
  by (induction d) (auto simp: fun_eq_iff)

lemma map_of_map_snd:
  "map_of (map (\<lambda>(t, a). (t, f a)) xs) t = map_option f (map_of xs t)"
  by (induction xs) auto

lemma map_of_in_snd: "map_of xs t = Some a \<Longrightarrow> a \<in> snd ` set xs"
  by (metis image_eqI map_of_SomeD snd_conv)

lemma is_list_copy_value [simp]: "is_list (copy_value m v) = is_list v"
  by (cases v) simp_all

lemma getitem_Some: "map_of d k = Some v \<Longrightarrow> getitem d k = Inr v"
  by (simp add: getitem_def)

lemma getitem_None: "map_of d k = None \<Longrightarrow> getitem d k = Inl (KeyError k)"
  by (simp add: getitem_def)

lemma exn_bind_Inr [simp]: "exn_bind (Inr x) f = f x"
  by (simp add: exn_bind_def)

lemma exn_bind_Inl [simp]: "exn_bind (Inl e) f = Inl e"
  by (simp add: exn_bind_def)

lemma py_add_list_cases:
  assumes "is_list a"
  shows "(is_list b \<longrightarrow> (\<exists>xs ys. a = YList xs \<and> b = YList ys \<and> py_add a b = Inr (YList (xs @ ys))))
       \<and> (\<not> is_list b \<longrightarrow> py_add a b = Inl TypeError)"
  using assms by (cases a; cases b) auto

subsection \<open>The dictionaries a deep copy meets\<close>

text \<open>A round keeps what it has and adds what the dictionaries found so far refer to. The
  rounds never leave a closed set that holds the start, and a round that adds nothing
  leaves a closed set.\<close>

lemma set_reach_step:
  "set (reach_step s as) = set as \<union> (\<Union>a \<in> set as. set (dicts_of s a))"
  by (auto simp: reach_step_def)

lemma reach_iter_mono: "set as \<subseteq> set ((reach_step s ^^ k) as)"
  by (induction k) (auto simp: set_reach_step)

lemma reach_iter_least:
  assumes "closed_in s A" and "set as \<subseteq> A"
  shows "set ((reach_step s ^^ k) as) \<subseteq> A"
  using assms by (induction k) (auto simp: set_reach_step closed_in_def)

lemma reach_iter_distinct: "distinct as \<Longrightarrow> distinct ((reach_step s ^^ k) as)"
  by (induction k) (auto simp: reach_step_def)

lemma reach_iter_fixed:
  assumes "closed_in s (set ((reach_step s ^^ k) as))"
  shows "set ((reach_step s ^^ (k + j)) as) = set ((reach_step s ^^ k) as)"
proof (induction j)
  case 0
  then show ?case by simp
next
  case (Suc j)
  have "set ((reach_step s ^^ (k + Suc j)) as)
      = set ((reach_step s ^^ (k + j)) as)
          \<union> (\<Union>a \<in> set ((reach_step s ^^ (k + j)) as). set (dicts_of s a))"
    by (simp add: set_reach_step)
  also have "\<dots> = set ((reach_step s ^^ k) as)"
    using Suc assms by (auto simp: closed_in_def)
  finally show ?case .
qed

text \<open>As long as the set is not closed every round adds a dictionary, so after \<open>k\<close>
  rounds the set is closed or has more than \<open>k\<close> dictionaries.\<close>

lemma reach_iter_progress:
  assumes bound: "\<And>k. set ((reach_step s ^^ k) as) \<subseteq> {..<n}"
  shows "closed_in s (set ((reach_step s ^^ k) as)) \<or> k < card (set ((reach_step s ^^ k) as))"
proof (induction k)
  case 0
  show ?case
  proof (cases as)
    case Nil
    then show ?thesis by (simp add: closed_in_def)
  next
    case (Cons a as')
    then have "0 < card (set as)" by (simp add: card_gt_0_iff)
    then show ?thesis by simp
  qed
next
  case (Suc k)
  let ?S = "set ((reach_step s ^^ k) as)"
  let ?T = "set ((reach_step s ^^ Suc k) as)"
  have T: "?T = ?S \<union> (\<Union>a \<in> ?S. set (dicts_of s a))" by (simp add: set_reach_step)
  show ?case
  proof (cases "closed_in s ?S")
    case True
    then have "?T = ?S" using T by (auto simp: closed_in_def)
    then show ?thesis using True by simp
  next
    case False
    then have k: "k < card ?S" using Suc by blast
    from False obtain a b where "a \<in> ?S" "b \<in> set (dicts_of s a)" "b \<notin> ?S"
      by (auto simp: closed_in_def)
    then have "?S \<subset> ?T" using T by blast
    moreover have "finite ?T" by simp
    ultimately have "card ?S < card ?T" by (rule psubset_card_mono [rotated])
    then show ?thesis using k by simp
  qed
qed

text \<open>In a sound store the dictionaries met from dictionaries of the store are
  dictionaries of the store, and they form a closed set: the walk is complete.\<close>

lemma reachable_props:
  assumes wfs: "wf_store s" and as: "\<forall>a \<in> set as. a < next_settings s"
  shows "closed_in s (set (reachable s as))"
    and "\<forall>a \<in> set (reachable s as). a < next_settings s"
proof -
  let ?n = "next_settings s"
  have cl: "closed_in s {..<?n}" using wfs by (auto simp: wf_store_def closed_in_def)
  have init: "set (remdups as) \<subseteq> {..<?n}" using as by auto
  have bound: "\<And>k. set ((reach_step s ^^ k) (remdups as)) \<subseteq> {..<?n}"
    by (rule reach_iter_least [OF cl init])
  show "\<forall>a \<in> set (reachable s as). a < next_settings s"
    using bound [of ?n] by (auto simp: reachable_def)
  have "closed_in s (set ((reach_step s ^^ ?n) (remdups as)))
      \<or> ?n < card (set ((reach_step s ^^ ?n) (remdups as)))"
    by (rule reach_iter_progress [where n = ?n, OF bound])
  moreover have "card (set ((reach_step s ^^ ?n) (remdups as))) \<le> card {..<?n}"
    using bound [of ?n] by (intro card_mono) auto
  ultimately show "closed_in s (set (reachable s as))"
    by (auto simp: reachable_def)
qed

lemma reachable_mono: "set as \<subseteq> set (reachable s as)"
  using reach_iter_mono [where as = "remdups as" and s = s and k = "next_settings s"] by (simp add: reachable_def)

lemma reachable_least:
  assumes "closed_in s A" and "set as \<subseteq> A"
  shows "set (reachable s as) \<subseteq> A"
  using reach_iter_least [OF assms(1), of "remdups as"] assms(2) by (simp add: reachable_def)

lemma reachable_distinct: "distinct (reachable s as)"
  by (simp add: reachable_def reach_iter_distinct)

subsection \<open>The deep copy\<close>

text \<open>The memo sends different dictionaries to different new addresses.\<close>

lemma copy_of_nth:
  assumes "distinct ds" and "i < length ds"
  shows "copy_of ds n (ds ! i) = n + i"
proof -
  have "map_of (zip ds [n ..< n + length ds]) (ds ! i) = Some ([n ..< n + length ds] ! i)"
    using assms by (intro map_of_zip_nth) simp_all
  then show ?thesis using assms(2) by (simp add: copy_of_def)
qed

lemma copy_of_props:
  assumes d: "distinct ds"
  shows "inj_on (copy_of ds n) (set ds)"
    and "\<forall>a \<in> set ds. n \<le> copy_of ds n a \<and> copy_of ds n a < n + length ds
           \<and> ds ! (copy_of ds n a - n) = a"
proof -
  show "inj_on (copy_of ds n) (set ds)"
  proof (rule inj_onI)
    fix a b assume "a \<in> set ds" "b \<in> set ds" and e: "copy_of ds n a = copy_of ds n b"
    then obtain i j where ij: "i < length ds" "ds ! i = a" "j < length ds" "ds ! j = b"
      by (metis in_set_conv_nth)
    then have "n + i = n + j" using e copy_of_nth [OF d] by metis
    then show "a = b" using ij by simp
  qed
  show "\<forall>a \<in> set ds. n \<le> copy_of ds n a \<and> copy_of ds n a < n + length ds
           \<and> ds ! (copy_of ds n a - n) = a"
  proof
    fix a assume "a \<in> set ds"
    then obtain i where i: "i < length ds" "ds ! i = a" by (metis in_set_conv_nth)
    then have "copy_of ds n a = n + i" using copy_of_nth [OF d] by metis
    then show "n \<le> copy_of ds n a \<and> copy_of ds n a < n + length ds
           \<and> ds ! (copy_of ds n a - n) = a"
      using i by simp
  qed
qed

text \<open>What holds after the deep copy: the invariant of the merge; every dictionary met
  has a copy with the same keys and the values copied under the memo; the copies are at
  new addresses, one for each original; and the result has the tools of the root, on
  the copies.\<close>

lemma deepcopy_props:
  assumes wf: "wf_config s0 r" and dc: "deepcopy r s0 = (res, s1)"
    and ds: "ds = reachable s0 (map snd (config_at s0 r))"
    and cp: "cp = copy_of ds (next_settings s0)"
  shows "merge_inv s0 r res cp s1"
    and "\<forall>a \<in> set ds. settings_at s1 (cp a)
           = map (\<lambda>(k, v). (k, copy_value cp v)) (settings_at s0 a)"
    and "\<forall>a \<in> set ds. next_settings s0 \<le> cp a"
    and "inj_on cp (set ds)"
    and "snd ` set (config_at s0 r) \<subseteq> set ds"
    and "config_at s1 res = map (\<lambda>(t, a). (t, cp a)) (config_at s0 r)"
    and "res = next_config s0"
proof -
  let ?n = "next_settings s0"
  have dist: "distinct ds" using ds by (simp add: reachable_distinct)
  note cpp = copy_of_props [OF dist, of ?n]
  show inj: "inj_on cp (set ds)" using cpp(1) cp by simp
  show sub: "snd ` set (config_at s0 r) \<subseteq> set ds"
    using reachable_mono [of "map snd (config_at s0 r)" s0] ds by auto
  show res: "res = next_config s0" using dc by (simp add: deepcopy_def Let_def)
  have sa: "settings_at s1 = (\<lambda>a. if ?n \<le> a \<and> a < ?n + length ds
                                then map (\<lambda>(k, v). (k, copy_value cp v))
                                       (settings_at s0 (ds ! (a - ?n)))
                                else settings_at s0 a)"
    using dc unfolding ds cp by (auto simp: deepcopy_def Let_def)
  have ca: "config_at s1 = (config_at s0)(res := map (\<lambda>(t, a). (t, cp a)) (config_at s0 r))"
    using dc unfolding ds cp by (auto simp: deepcopy_def Let_def)
  show fresh: "\<forall>a \<in> set ds. next_settings s0 \<le> cp a" using cpp(2) cp by simp
  show content: "\<forall>a \<in> set ds. settings_at s1 (cp a)
           = map (\<lambda>(k, v). (k, copy_value cp v)) (settings_at s0 a)"
    using cpp(2) cp by (simp add: sa)
  show cres: "config_at s1 res = map (\<lambda>(t, a). (t, cp a)) (config_at s0 r)"
    by (simp add: ca)
  have frame1: "\<forall>a < next_settings s0. settings_at s1 a = settings_at s0 a"
    by (simp add: sa)
  have frame2: "\<forall>c < next_config s0. config_at s1 c = config_at s0 c"
    by (simp add: ca res)
  have inj': "inj_on cp (snd ` set (config_at s0 r))"
    using inj sub by (rule inj_on_subset)
  have fresh': "\<forall>a \<in> snd ` set (config_at s0 r). next_settings s0 \<le> cp a"
    using fresh sub by blast
  have g3: "\<forall>t a. map_of (config_at s0 r) t = Some a \<longrightarrow>
        map_of (config_at s1 res) t = Some (cp a)"
    by (simp add: cres map_of_map_snd)
  have g5: "\<forall>t a. map_of (config_at s1 res) t = Some a \<longrightarrow>
        map_of (config_at s0 r) t = None \<longrightarrow> a < next_settings s0"
    by (auto simp: cres map_of_map_snd)
  have g4: "\<forall>t a k v. map_of (config_at s0 r) t = Some a \<longrightarrow>
        map_of (settings_at s0 a) k = Some v \<longrightarrow>
        (\<exists>v'. map_of (settings_at s1 (cp a)) k = Some v' \<and> (is_list v \<longrightarrow> is_list v'))"
  proof (intro allI impI)
    fix t a k v
    assume a: "map_of (config_at s0 r) t = Some a" and v: "map_of (settings_at s0 a) k = Some v"
    have "a \<in> set ds" using sub map_of_in_snd [OF a] by blast
    then have "settings_at s1 (cp a) = map (\<lambda>(k, v). (k, copy_value cp v)) (settings_at s0 a)"
      using content by blast
    then have "map_of (settings_at s1 (cp a)) k = Some (copy_value cp v)"
      using v by (simp add: map_of_map_snd)
    then show "\<exists>v'. map_of (settings_at s1 (cp a)) k = Some v' \<and> (is_list v \<longrightarrow> is_list v')"
      by simp
  qed
  show "merge_inv s0 r res cp s1"
    unfolding merge_inv_def
    using res inj' fresh' frame1 frame2 g3 g5 g4 by (intro conjI) simp_all
qed

subsection \<open>Reading through the invariant\<close>

lemma merge_inv_reads:
  assumes inv: "merge_inv s0 r res cp s" and wfc: "wf_config s0 c"
  shows "config_at s c = config_at s0 c"
    and "\<And>t a. map_of (config_at s0 c) t = Some a \<Longrightarrow> settings_at s a = settings_at s0 a"
proof -
  have "c < next_config s0" using wfc by (simp add: wf_config_def)
  then show "config_at s c = config_at s0 c" using inv by (simp add: merge_inv_def)
  fix t a assume "map_of (config_at s0 c) t = Some a"
  then have "a \<in> snd ` set (config_at s0 c)" by (rule map_of_in_snd)
  then have "a < next_settings s0" using wfc by (auto simp: wf_config_def)
  then show "settings_at s a = settings_at s0 a" using inv by (simp add: merge_inv_def)
qed

lemma merge_inv_result:
  assumes inv: "merge_inv s0 r res cp s" and rt: "map_of (config_at s0 r) t = Some rs"
  shows "map_of (config_at s res) t = Some (cp rs)"
    and "\<And>k v. map_of (settings_at s0 rs) k = Some v \<Longrightarrow>
           \<exists>v'. map_of (settings_at s (cp rs)) k = Some v' \<and> (is_list v \<longrightarrow> is_list v')"
    and "next_settings s0 \<le> cp rs"
proof -
  show "map_of (config_at s res) t = Some (cp rs)"
    using inv rt by (simp add: merge_inv_def)
  show "\<And>k v. map_of (settings_at s0 rs) k = Some v \<Longrightarrow>
           \<exists>v'. map_of (settings_at s (cp rs)) k = Some v' \<and> (is_list v \<longrightarrow> is_list v')"
    using inv rt unfolding merge_inv_def by blast
  have "rs \<in> snd ` set (config_at s0 r)" using rt by (rule map_of_in_snd)
  then show "next_settings s0 \<le> cp rs" using inv unfolding merge_inv_def by blast
qed

subsection \<open>The loops\<close>

lemma merge_key_effect:
  assumes inv: "merge_inv s0 r res cp s"
    and wfc: "wf_config s0 c" and wfr: "wf_config s0 r"
    and lt: "map_of (config_at s0 c) t = Some ls"
    and rt: "map_of (config_at s0 r) t = Some rs"
    and lk: "map_of (settings_at s0 ls) k = Some lv"
  shows "merge_key c r res t k s =
     (case (if (\<exists>rv. map_of (settings_at s0 rs) k = Some rv \<and> is_list rv)
            then py_add (the (map_of (settings_at s (cp rs)) k)) lv
            else Inr lv) of
        Inl e \<Rightarrow> (Inl e, s)
      | Inr v \<Rightarrow> (Inr (), s\<lparr>settings_at := (settings_at s)
                         (cp rs := setitem (settings_at s (cp rs)) k v)\<rparr>))"
proof -
  note rc = merge_inv_reads [OF inv wfc]
  note rr = merge_inv_reads [OF inv wfr]
  note rres = merge_inv_result [OF inv rt]
  have c1: "getitem (config_at s r) t = Inr rs" using rr(1) rt by (simp add: getitem_def)
  have c2: "getitem (config_at s c) t = Inr ls" using rc(1) lt by (simp add: getitem_def)
  have c3: "getitem (config_at s res) t = Inr (cp rs)" using rres(1) by (simp add: getitem_def)
  have c4: "settings_at s rs = settings_at s0 rs" using rr(2) rt by simp
  have c5: "getitem (settings_at s ls) k = Inr lv" using rc(2) [OF lt] lk by (simp add: getitem_def)
  show ?thesis
  proof (cases "\<exists>rv. map_of (settings_at s0 rs) k = Some rv \<and> is_list rv")
    case True
    then obtain rv where rv: "map_of (settings_at s0 rs) k = Some rv" "is_list rv" by blast
    obtain v' where v': "map_of (settings_at s (cp rs)) k = Some v'"
      using rres(2) [OF rv(1)] by blast
    have c6: "getitem (settings_at s (cp rs)) k = Inr v'" using v' by (simp add: getitem_def)
    show ?thesis
      using True rv v'
      by (simp add: merge_key_def c1 c2 c3 c4 c5 c6 has_key_def exn_bind_def split: sum.splits)
  next
    case False
    then show ?thesis
      by (auto simp: merge_key_def c1 c2 c3 c4 c5 has_key_def split: option.splits)
  qed
qed

lemma merge_inv_settings_update:
  assumes inv: "merge_inv s0 r res cp s"
    and rt: "map_of (config_at s0 r) t = Some rs"
    and v: "\<forall>rv. map_of (settings_at s0 rs) k = Some rv \<longrightarrow> is_list rv \<longrightarrow> is_list v"
  shows "merge_inv s0 r res cp
     (s\<lparr>settings_at := (settings_at s)(cp rs := setitem (settings_at s (cp rs)) k v)\<rparr>)"
proof -
  let ?s' = "s\<lparr>settings_at := (settings_at s)(cp rs := setitem (settings_at s (cp rs)) k v)\<rparr>"
  have rsS: "rs \<in> snd ` set (config_at s0 r)" using rt by (rule map_of_in_snd)
  have fresh: "next_settings s0 \<le> cp rs" using inv rsS unfolding merge_inv_def by blast
  have inj: "inj_on cp (snd ` set (config_at s0 r))" using inv by (simp add: merge_inv_def)
  have g1: "\<forall>a < next_settings s0. settings_at ?s' a = settings_at s0 a"
    using inv fresh by (simp add: merge_inv_def)
  have g4: "\<forall>t' a k' v0. map_of (config_at s0 r) t' = Some a \<longrightarrow>
        map_of (settings_at s0 a) k' = Some v0 \<longrightarrow>
        (\<exists>v'. map_of (settings_at ?s' (cp a)) k' = Some v' \<and> (is_list v0 \<longrightarrow> is_list v'))"
  proof (intro allI impI)
    fix t' a k' v0
    assume a: "map_of (config_at s0 r) t' = Some a" and k': "map_of (settings_at s0 a) k' = Some v0"
    have old: "\<exists>v'. map_of (settings_at s (cp a)) k' = Some v' \<and> (is_list v0 \<longrightarrow> is_list v')"
      using inv a k' unfolding merge_inv_def by blast
    have aS: "a \<in> snd ` set (config_at s0 r)" using a by (rule map_of_in_snd)
    show "\<exists>v'. map_of (settings_at ?s' (cp a)) k' = Some v' \<and> (is_list v0 \<longrightarrow> is_list v')"
    proof (cases "cp a = cp rs")
      case True
      then have ars: "a = rs" using inj aS rsS by (auto dest: inj_onD)
      show ?thesis
      proof (cases "k' = k")
        case True
        then show ?thesis using ars k' v \<open>cp a = cp rs\<close> by (simp add: map_of_setitem)
      next
        case False
        then show ?thesis using old \<open>cp a = cp rs\<close> by (simp add: map_of_setitem)
      qed
    next
      case False
      then show ?thesis using old by simp
    qed
  qed
  show ?thesis
    unfolding merge_inv_def
    using inv g1 g4 by (intro conjI) (simp_all add: merge_inv_def)
qed

lemma merge_inv_config_update:
  assumes inv: "merge_inv s0 r res cp s"
    and nt: "map_of (config_at s0 r) t = None" and a: "a < next_settings s0"
  shows "merge_inv s0 r res cp
     (s\<lparr>config_at := (config_at s)(res := setitem (config_at s res) t a)\<rparr>)"
proof -
  let ?s' = "s\<lparr>config_at := (config_at s)(res := setitem (config_at s res) t a)\<rparr>"
  have g2: "\<forall>c < next_config s0. config_at ?s' c = config_at s0 c"
    using inv by (simp add: merge_inv_def)
  have g3: "\<forall>t' a'. map_of (config_at s0 r) t' = Some a' \<longrightarrow>
        map_of (config_at ?s' res) t' = Some (cp a')"
    using inv nt by (auto simp: merge_inv_def map_of_setitem)
  have g5: "\<forall>t' a'. map_of (config_at ?s' res) t' = Some a' \<longrightarrow>
        map_of (config_at s0 r) t' = None \<longrightarrow> a' < next_settings s0"
    using inv a by (auto simp: merge_inv_def map_of_setitem)
  show ?thesis
    unfolding merge_inv_def
    using inv g2 g3 g5 by (intro conjI) (simp_all add: merge_inv_def)
qed

lemma merge_key_step:
  assumes inv: "merge_inv s0 r res cp s"
    and wfc: "wf_config s0 c" and wfr: "wf_config s0 r"
    and lt: "map_of (config_at s0 c) t = Some ls"
    and rt: "map_of (config_at s0 r) t = Some rs"
    and lk: "map_of (settings_at s0 ls) k = Some lv"
  shows "(\<exists>rv. map_of (settings_at s0 rs) k = Some rv \<and> is_list rv \<and> \<not> is_list lv) \<Longrightarrow>
           merge_key c r res t k s = (Inl TypeError, s)"
    and "\<not> (\<exists>rv. map_of (settings_at s0 rs) k = Some rv \<and> is_list rv \<and> \<not> is_list lv) \<Longrightarrow>
           \<exists>v. merge_key c r res t k s
                 = (Inr (), s\<lparr>settings_at := (settings_at s)
                                (cp rs := setitem (settings_at s (cp rs)) k v)\<rparr>)
               \<and> (\<forall>rv. map_of (settings_at s0 rs) k = Some rv \<longrightarrow> is_list rv \<longrightarrow> is_list v)
               \<and> (map_of (settings_at s (cp rs)) k
                     = map_option (copy_value cp) (map_of (settings_at s0 rs) k) \<longrightarrow>
                    v = merged_value lv (map_option (copy_value cp) (map_of (settings_at s0 rs) k)))"
proof -
  note eff = merge_key_effect [OF inv wfc wfr lt rt lk]
  note rres = merge_inv_result [OF inv rt]
  {
    assume "\<exists>rv. map_of (settings_at s0 rs) k = Some rv \<and> is_list rv \<and> \<not> is_list lv"
    then obtain rv where rv: "map_of (settings_at s0 rs) k = Some rv" "is_list rv" "\<not> is_list lv"
      by blast
    obtain v' where v': "map_of (settings_at s (cp rs)) k = Some v'" "is_list v'"
      using rres(2) [OF rv(1)] rv(2) by blast
    have "py_add v' lv = Inl TypeError"
      using py_add_list_cases [OF v'(2), of lv] rv(3) by simp
    then show "merge_key c r res t k s = (Inl TypeError, s)"
      using eff rv v' by auto
  }
  {
    assume good: "\<not> (\<exists>rv. map_of (settings_at s0 rs) k = Some rv \<and> is_list rv \<and> \<not> is_list lv)"
    show "\<exists>v. merge_key c r res t k s
                 = (Inr (), s\<lparr>settings_at := (settings_at s)
                                (cp rs := setitem (settings_at s (cp rs)) k v)\<rparr>)
               \<and> (\<forall>rv. map_of (settings_at s0 rs) k = Some rv \<longrightarrow> is_list rv \<longrightarrow> is_list v)
               \<and> (map_of (settings_at s (cp rs)) k
                     = map_option (copy_value cp) (map_of (settings_at s0 rs) k) \<longrightarrow>
                    v = merged_value lv (map_option (copy_value cp) (map_of (settings_at s0 rs) k)))"
    proof (cases "\<exists>rv. map_of (settings_at s0 rs) k = Some rv \<and> is_list rv")
      case True
      then obtain rv where rv: "map_of (settings_at s0 rs) k = Some rv" "is_list rv" by blast
      then have ll: "is_list lv" using good by blast
      obtain v' where v': "map_of (settings_at s (cp rs)) k = Some v'" "is_list v'"
        using rres(2) [OF rv(1)] rv(2) by blast
      obtain xs ys where xy: "v' = YList xs" "lv = YList ys"
        "py_add v' lv = Inr (YList (xs @ ys))"
        using py_add_list_cases [OF v'(2), of lv] ll by blast
      have m: "merge_key c r res t k s
                 = (Inr (), s\<lparr>settings_at := (settings_at s)
                      (cp rs := setitem (settings_at s (cp rs)) k (YList (xs @ ys)))\<rparr>)"
        using eff True v' xy by simp
      have l: "\<forall>rv. map_of (settings_at s0 rs) k = Some rv \<longrightarrow> is_list rv \<longrightarrow>
                 is_list (YList (xs @ ys))"
        by simp
      have e: "map_of (settings_at s (cp rs)) k
                  = map_option (copy_value cp) (map_of (settings_at s0 rs) k) \<longrightarrow>
                    YList (xs @ ys)
                  = merged_value lv (map_option (copy_value cp) (map_of (settings_at s0 rs) k))"
      proof
        assume "map_of (settings_at s (cp rs)) k
                  = map_option (copy_value cp) (map_of (settings_at s0 rs) k)"
        then have m: "map_option (copy_value cp) (map_of (settings_at s0 rs) k) = Some (YList xs)"
          using v' xy by simp
        show "YList (xs @ ys)
                  = merged_value lv (map_option (copy_value cp) (map_of (settings_at s0 rs) k))"
          unfolding m xy(2) by (simp add: merged_value_def)
      qed
      from m l e show ?thesis by blast
    next
      case False
      have m: "merge_key c r res t k s
                 = (Inr (), s\<lparr>settings_at := (settings_at s)
                      (cp rs := setitem (settings_at s (cp rs)) k lv)\<rparr>)"
        using eff False by simp
      have l: "\<forall>rv. map_of (settings_at s0 rs) k = Some rv \<longrightarrow> is_list rv \<longrightarrow> is_list lv"
        using False by blast
      have e: "lv = merged_value lv (map_option (copy_value cp) (map_of (settings_at s0 rs) k))"
      proof (cases "map_of (settings_at s0 rs) k")
        case None
        then show ?thesis by (simp add: merged_value_def)
      next
        case (Some rv)
        then have "\<not> is_list rv" using False by simp
        then show ?thesis using Some by (cases rv) (simp_all add: merged_value_def)
      qed
      from m l e show ?thesis by blast
    qed
  }
qed

lemma merge_keys_general:
  assumes wfc: "wf_config s0 c" and wfr: "wf_config s0 r"
    and lt: "map_of (config_at s0 c) t = Some ls"
    and rt: "map_of (config_at s0 r) t = Some rs"
    and inv: "merge_inv s0 r res cp s"
    and ks: "\<forall>k \<in> set ks. map_of (settings_at s0 ls) k \<noteq> None"
    and run: "merge_keys c r res t ks s = (r', s')"
  shows "merge_inv s0 r res cp s'
     \<and> (r' = Inr () \<or> r' = Inl TypeError)
     \<and> (r' = Inr () \<longleftrightarrow>
          (\<forall>k \<in> set ks. \<not> (\<exists>lv rv. map_of (settings_at s0 ls) k = Some lv
              \<and> map_of (settings_at s0 rs) k = Some rv \<and> is_list rv \<and> \<not> is_list lv)))
     \<and> config_at s' = config_at s
     \<and> (\<forall>a. a \<noteq> cp rs \<longrightarrow> settings_at s' a = settings_at s a)"
  using inv ks run
proof (induction ks arbitrary: s)
  case Nil
  then show ?case by simp
next
  case (Cons k ks)
  obtain lv where lk: "map_of (settings_at s0 ls) k = Some lv"
    using Cons.prems(2) by auto
  note st = merge_key_step [OF Cons.prems(1) wfc wfr lt rt lk]
  let ?bad = "\<exists>rv. map_of (settings_at s0 rs) k = Some rv \<and> is_list rv \<and> \<not> is_list lv"
  show ?case
  proof (cases ?bad)
    case True
    have "merge_key c r res t k s = (Inl TypeError, s)" using st(1) True by blast
    then have e: "r' = Inl TypeError" "s' = s" using Cons.prems(3) by simp_all
    have b: "\<exists>lv rv. map_of (settings_at s0 ls) k = Some lv
              \<and> map_of (settings_at s0 rs) k = Some rv \<and> is_list rv \<and> \<not> is_list lv"
      using True lk by blast
    show ?thesis using e Cons.prems(1) b by auto
  next
    case False
    then obtain v where v: "merge_key c r res t k s
                 = (Inr (), s\<lparr>settings_at := (settings_at s)
                                (cp rs := setitem (settings_at s (cp rs)) k v)\<rparr>)"
      "\<forall>rv. map_of (settings_at s0 rs) k = Some rv \<longrightarrow> is_list rv \<longrightarrow> is_list v"
      using st(2) by blast
    let ?s1 = "s\<lparr>settings_at := (settings_at s)
                                (cp rs := setitem (settings_at s (cp rs)) k v)\<rparr>"
    have inv1: "merge_inv s0 r res cp ?s1"
      using merge_inv_settings_update [OF Cons.prems(1) rt v(2)] .
    have ks1: "\<forall>k \<in> set ks. map_of (settings_at s0 ls) k \<noteq> None"
      using Cons.prems(2) by simp
    have run1: "merge_keys c r res t ks ?s1 = (r', s')"
      using Cons.prems(3) v(1) by simp
    note ih = Cons.IH [OF inv1 ks1 run1]
    have nb: "\<not> (\<exists>lv rv. map_of (settings_at s0 ls) k = Some lv
              \<and> map_of (settings_at s0 rs) k = Some rv \<and> is_list rv \<and> \<not> is_list lv)"
      using False lk by auto
    have c1: "config_at s' = config_at s" using ih by simp
    have c2: "\<forall>a. a \<noteq> cp rs \<longrightarrow> settings_at s' a = settings_at s a" using ih by simp
    have c3: "r' = Inr () \<longleftrightarrow>
          (\<forall>k \<in> set (k # ks). \<not> (\<exists>lv rv. map_of (settings_at s0 ls) k = Some lv
              \<and> map_of (settings_at s0 rs) k = Some rv \<and> is_list rv \<and> \<not> is_list lv))"
      using ih nb by simp
    from ih c1 c2 c3 show ?thesis by blast
  qed
qed

lemma merge_keys_content:
  assumes wfc: "wf_config s0 c" and wfr: "wf_config s0 r"
    and lt: "map_of (config_at s0 c) t = Some ls"
    and rt: "map_of (config_at s0 r) t = Some rs"
    and inv: "merge_inv s0 r res cp s"
    and ks: "\<forall>k \<in> set ks. map_of (settings_at s0 ls) k \<noteq> None"
    and dist: "distinct ks"
    and untouched: "\<forall>k \<in> set ks. map_of (settings_at s (cp rs)) k
          = map_option (copy_value cp) (map_of (settings_at s0 rs) k)"
    and run: "merge_keys c r res t ks s = (Inr (), s')"
  shows "map_of (settings_at s' (cp rs)) k =
     (if k \<in> set ks
      then Some (merged_value (the (map_of (settings_at s0 ls) k))
                   (map_option (copy_value cp) (map_of (settings_at s0 rs) k)))
      else map_of (settings_at s (cp rs)) k)"
  using inv ks dist untouched run
proof (induction ks arbitrary: s)
  case Nil
  then show ?case by simp
next
  case (Cons k1 ks)
  obtain lv where lk: "map_of (settings_at s0 ls) k1 = Some lv"
    using Cons.prems(2) by auto
  note st = merge_key_step [OF Cons.prems(1) wfc wfr lt rt lk]
  let ?bad = "\<exists>rv. map_of (settings_at s0 rs) k1 = Some rv \<and> is_list rv \<and> \<not> is_list lv"
  have nb: "\<not> ?bad"
  proof
    assume ?bad
    then have "merge_key c r res t k1 s = (Inl TypeError, s)" using st(1) by blast
    then show False using Cons.prems(5) by simp
  qed
  have u1: "map_of (settings_at s (cp rs)) k1
      = map_option (copy_value cp) (map_of (settings_at s0 rs) k1)"
    using Cons.prems(4) by simp
  obtain v where v: "merge_key c r res t k1 s
                 = (Inr (), s\<lparr>settings_at := (settings_at s)
                                (cp rs := setitem (settings_at s (cp rs)) k1 v)\<rparr>)"
      "\<forall>rv. map_of (settings_at s0 rs) k1 = Some rv \<longrightarrow> is_list rv \<longrightarrow> is_list v"
      "v = merged_value lv (map_option (copy_value cp) (map_of (settings_at s0 rs) k1))"
    using st(2) [OF nb] u1 by blast
  let ?s1 = "s\<lparr>settings_at := (settings_at s)
                                (cp rs := setitem (settings_at s (cp rs)) k1 v)\<rparr>"
  have inv1: "merge_inv s0 r res cp ?s1"
    using merge_inv_settings_update [OF Cons.prems(1) rt v(2)] .
  have ks1: "\<forall>k \<in> set ks. map_of (settings_at s0 ls) k \<noteq> None"
    using Cons.prems(2) by simp
  have d1: "distinct ks" and k1: "k1 \<notin> set ks" using Cons.prems(3) by simp_all
  have un1: "\<forall>k \<in> set ks. map_of (settings_at ?s1 (cp rs)) k
      = map_option (copy_value cp) (map_of (settings_at s0 rs) k)"
    using Cons.prems(4) k1 by (auto simp: map_of_setitem)
  have run1: "merge_keys c r res t ks ?s1 = (Inr (), s')"
    using Cons.prems(5) v(1) by simp
  note ih = Cons.IH [OF inv1 ks1 d1 un1 run1]
  show ?case
  proof (cases "k = k1")
    case True
    then show ?thesis using ih k1 v(3) lk by (simp add: map_of_setitem)
  next
    case False
    then show ?thesis using ih by (simp add: map_of_setitem)
  qed
qed

lemma clash_iff:
  assumes lt: "map_of (config_at s0 c) t = Some ls"
    and rt: "map_of (config_at s0 r) t = Some rs"
  shows "clash s0 c r t k \<longleftrightarrow>
     (\<exists>lv rv. map_of (settings_at s0 ls) k = Some lv
        \<and> map_of (settings_at s0 rs) k = Some rv \<and> is_list rv \<and> \<not> is_list lv)"
  using lt rt by (simp add: clash_def value_at_def)

lemma merge_tool_general:
  assumes wfc: "wf_config s0 c" and wfr: "wf_config s0 r"
    and inv: "merge_inv s0 r res cp s"
    and lt: "map_of (config_at s0 c) t = Some ls"
    and run: "merge_tool c r res t s = (r', s')"
  shows "merge_inv s0 r res cp s'
     \<and> (r' = Inr () \<or> r' = Inl TypeError)
     \<and> (r' = Inr () \<longleftrightarrow> (\<forall>k. \<not> clash s0 c r t k))"
proof -
  note rc = merge_inv_reads [OF inv wfc]
  note rr = merge_inv_reads [OF inv wfr]
  have g: "getitem (config_at s c) t = Inr ls" using rc(1) lt by (simp add: getitem_def)
  have lsn: "ls < next_settings s0"
    using wfc map_of_in_snd [OF lt] by (auto simp: wf_config_def)
  show ?thesis
  proof (cases "map_of (config_at s0 r) t")
    case None
    then have nk: "\<not> has_key (config_at s r) t" using rr(1) by (simp add: has_key_def)
    have e: "r' = Inr ()"
      "s' = s\<lparr>config_at := (config_at s)(res := setitem (config_at s res) t ls)\<rparr>"
      using run nk g by (simp_all add: merge_tool_def)
    have i: "merge_inv s0 r res cp s'"
      using merge_inv_config_update [OF inv None lsn] e(2) by simp
    have nc: "\<forall>k. \<not> clash s0 c r t k" using None by (simp add: clash_def value_at_def)
    from e i nc show ?thesis by simp
  next
    case (Some rs)
    then have hk: "has_key (config_at s r) t" using rr(1) by (simp add: has_key_def)
    have sl: "settings_at s ls = settings_at s0 ls" using rc(2) [OF lt] .
    have run1: "merge_keys c r res t (map fst (settings_at s0 ls)) s = (r', s')"
      using run hk g sl by (simp add: merge_tool_def)
    have ks: "\<forall>k \<in> set (map fst (settings_at s0 ls)). map_of (settings_at s0 ls) k \<noteq> None"
      by (simp add: map_of_eq_None_iff)
    note mk = merge_keys_general [OF wfc wfr lt Some inv ks run1]
    have eq: "(\<forall>k \<in> set (map fst (settings_at s0 ls)).
                \<not> (\<exists>lv rv. map_of (settings_at s0 ls) k = Some lv
                    \<and> map_of (settings_at s0 rs) k = Some rv \<and> is_list rv \<and> \<not> is_list lv))
          \<longleftrightarrow> (\<forall>k. \<not> clash s0 c r t k)"
    proof
      assume a: "\<forall>k \<in> set (map fst (settings_at s0 ls)).
                \<not> (\<exists>lv rv. map_of (settings_at s0 ls) k = Some lv
                    \<and> map_of (settings_at s0 rs) k = Some rv \<and> is_list rv \<and> \<not> is_list lv)"
      show "\<forall>k. \<not> clash s0 c r t k"
      proof (intro allI notI)
        fix k assume "clash s0 c r t k"
        then obtain lv rv where b: "map_of (settings_at s0 ls) k = Some lv"
          "map_of (settings_at s0 rs) k = Some rv" "is_list rv" "\<not> is_list lv"
          using clash_iff [OF lt Some] by blast
        then have "k \<in> set (map fst (settings_at s0 ls))"
          by (metis map_of_eq_None_iff option.distinct(1) set_map)
        then show False using a b by blast
      qed
    next
      assume "\<forall>k. \<not> clash s0 c r t k"
      then show "\<forall>k \<in> set (map fst (settings_at s0 ls)).
                \<not> (\<exists>lv rv. map_of (settings_at s0 ls) k = Some lv
                    \<and> map_of (settings_at s0 rs) k = Some rv \<and> is_list rv \<and> \<not> is_list lv)"
        using clash_iff [OF lt Some] by blast
    qed
    from mk eq show ?thesis by blast
  qed
qed

lemma merge_tools_general:
  assumes wfc: "wf_config s0 c" and wfr: "wf_config s0 r"
    and inv: "merge_inv s0 r res cp s"
    and ts: "\<forall>t \<in> set ts. map_of (config_at s0 c) t \<noteq> None"
    and run: "merge_tools c r res ts s = (r', s')"
  shows "merge_inv s0 r res cp s'
     \<and> (r' = Inr () \<or> r' = Inl TypeError)
     \<and> (r' = Inr () \<longleftrightarrow> (\<forall>t \<in> set ts. \<forall>k. \<not> clash s0 c r t k))"
  using inv ts run
proof (induction ts arbitrary: s)
  case Nil
  then show ?case by simp
next
  case (Cons t ts)
  obtain ls where lt: "map_of (config_at s0 c) t = Some ls" using Cons.prems(2) by auto
  obtain r1 s1 where m1: "merge_tool c r res t s = (r1, s1)" by (cases "merge_tool c r res t s")
  note g = merge_tool_general [OF wfc wfr Cons.prems(1) lt m1]
  show ?case
  proof (cases r1)
    case (Inl e)
    then have "r' = Inl e" "s' = s1" using Cons.prems(3) m1 by simp_all
    then show ?thesis using g Inl by auto
  next
    case (Inr u)
    then have run1: "merge_tools c r res ts s1 = (r', s')" using Cons.prems(3) m1 by simp
    have inv1: "merge_inv s0 r res cp s1" using g by simp
    have ts1: "\<forall>t \<in> set ts. map_of (config_at s0 c) t \<noteq> None" using Cons.prems(2) by simp
    note ih = Cons.IH [OF inv1 ts1 run1]
    have "\<forall>k. \<not> clash s0 c r t k" using g Inr by simp
    then have "(\<forall>t \<in> set (t # ts). \<forall>k. \<not> clash s0 c r t k)
        \<longleftrightarrow> (\<forall>t \<in> set ts. \<forall>k. \<not> clash s0 c r t k)" by simp
    then show ?thesis using ih by blast
  qed
qed

subsection \<open>The merge from the call to the return\<close>

lemma merge_run:
  assumes wfc: "wf_config s c" and wfr: "wf_config s r"
  obtains res cp s1 r' s' where "deepcopy r s = (res, s1)"
    and "cp = copy_of (reachable s (map snd (config_at s r))) (next_settings s)"
    and "merge_inv s r res cp s1"
    and "\<forall>a \<in> set (reachable s (map snd (config_at s r))). settings_at s1 (cp a)
           = map (\<lambda>(k, v). (k, copy_value cp v)) (settings_at s a)"
    and "config_at s1 res = map (\<lambda>(t, a). (t, cp a)) (config_at s r)"
    and "merge_tools c r res (map fst (config_at s c)) s1 = (r', s')"
    and "merge_inv s r res cp s'"
    and "r' = Inr () \<or> r' = Inl TypeError"
    and "r' = Inr () \<longleftrightarrow> (\<forall>t k. \<not> clash s c r t k)"
    and "merge_cs50_yaml c r s = (case r' of Inl e \<Rightarrow> Inl e | Inr u \<Rightarrow> Inr res, s')"
proof -
  obtain res s1 where dc: "deepcopy r s = (res, s1)" by (cases "deepcopy r s")
  define cp where "cp = copy_of (reachable s (map snd (config_at s r))) (next_settings s)"
  note dp = deepcopy_props [OF wfr dc refl cp_def]
  have cp: "merge_inv s r res cp s1"
    "\<forall>a \<in> set (reachable s (map snd (config_at s r))). settings_at s1 (cp a)
           = map (\<lambda>(k, v). (k, copy_value cp v)) (settings_at s a)"
    "config_at s1 res = map (\<lambda>(t, a). (t, cp a)) (config_at s r)"
    using dp(1) dp(2) dp(6) by blast+
  have c1: "config_at s1 c = config_at s c" using merge_inv_reads(1) [OF cp(1) wfc] .
  obtain r' s' where mt: "merge_tools c r res (map fst (config_at s c)) s1 = (r', s')"
    by (cases "merge_tools c r res (map fst (config_at s c)) s1")
  have ts: "\<forall>t \<in> set (map fst (config_at s c)). map_of (config_at s c) t \<noteq> None"
    by (simp add: map_of_eq_None_iff)
  note g = merge_tools_general [OF wfc wfr cp(1) ts mt]
  have cl: "(\<forall>t \<in> set (map fst (config_at s c)). \<forall>k. \<not> clash s c r t k)
      \<longleftrightarrow> (\<forall>t k. \<not> clash s c r t k)"
  proof
    assume a: "\<forall>t \<in> set (map fst (config_at s c)). \<forall>k. \<not> clash s c r t k"
    show "\<forall>t k. \<not> clash s c r t k"
    proof (intro allI notI)
      fix t k assume b: "clash s c r t k"
      then have "map_of (config_at s c) t \<noteq> None"
        by (auto simp: clash_def value_at_def split: option.splits)
      then have "t \<in> set (map fst (config_at s c))"
        by (metis map_of_eq_None_iff set_map)
      then show False using a b by blast
    qed
  qed blast
  have m: "merge_cs50_yaml c r s = (case r' of Inl e \<Rightarrow> Inl e | Inr u \<Rightarrow> Inr res, s')"
    using dc mt c1 by (simp add: merge_cs50_yaml_def split: sum.splits)
  from g cl have g3: "r' = Inr () \<longleftrightarrow> (\<forall>t k. \<not> clash s c r t k)" by blast
  from g have g1: "merge_inv s r res cp s'" and g2: "r' = Inr () \<or> r' = Inl TypeError"
    by blast+
  show ?thesis using that [OF dc cp_def cp(1) cp(2) cp(3) mt g1 g2 g3 m] .
qed

text \<open>
  Claim C7. The merge leaves its inputs as they were: after the call, whether it returned
  or raised, every dictionary that existed at the call has the items it had, so both
  configurations read out of the store as before. What is written to is new: the result
  is a configuration that did not exist at the call, and for every tool of the root the
  result refers to a settings dictionary that did not exist at the call, the copy.
\<close>

theorem merge_leaves_inputs_unchanged:
  assumes wfc: "wf_config s c" and wfr: "wf_config s r"
  shows "(\<forall>a < next_settings s. settings_at (snd (merge_cs50_yaml c r s)) a = settings_at s a)
     \<and> (\<forall>c' < next_config s. config_at (snd (merge_cs50_yaml c r s)) c' = config_at s c')
     \<and> config_items (snd (merge_cs50_yaml c r s)) c = config_items s c
     \<and> config_items (snd (merge_cs50_yaml c r s)) r = config_items s r
     \<and> (\<forall>res. fst (merge_cs50_yaml c r s) = Inr res \<longrightarrow>
          next_config s \<le> res
          \<and> (\<forall>t a. map_of (config_at (snd (merge_cs50_yaml c r s)) res) t = Some a
                \<longrightarrow> has_tool s r t \<longrightarrow> next_settings s \<le> a))"
proof (rule merge_run [OF wfc wfr])
  fix res cp s1 r' s'
  assume inv: "merge_inv s r res cp s'"
    and m: "merge_cs50_yaml c r s = (case r' of Inl e \<Rightarrow> Inl e | Inr u \<Rightarrow> Inr res, s')"
  have s': "snd (merge_cs50_yaml c r s) = s'" using m by simp
  have f1: "\<forall>a < next_settings s. settings_at s' a = settings_at s a"
    using inv unfolding merge_inv_def by blast
  have f2: "\<forall>c' < next_config s. config_at s' c' = config_at s c'"
    using inv unfolding merge_inv_def by blast
  have items: "config_items s' x = config_items s x" if wf: "wf_config s x" for x
  proof -
    have "config_at s' x = config_at s x" using merge_inv_reads(1) [OF inv wf] .
    moreover have "\<forall>p \<in> set (config_at s x). settings_at s' (snd p) = settings_at s (snd p)"
      using wf f1 by (auto simp: wf_config_def)
    ultimately show ?thesis by (auto simp: config_items_def)
  qed
  have new: "\<forall>res'. fst (merge_cs50_yaml c r s) = Inr res' \<longrightarrow>
          next_config s \<le> res'
          \<and> (\<forall>t a. map_of (config_at s' res') t = Some a
                \<longrightarrow> has_tool s r t \<longrightarrow> next_settings s \<le> a)"
  proof (intro allI impI)
    fix res' assume "fst (merge_cs50_yaml c r s) = Inr res'"
    then have e: "res' = res" using m by (auto split: sum.splits)
    have a: "next_config s \<le> res" using inv unfolding merge_inv_def by blast
    have b: "\<forall>t a. map_of (config_at s' res) t = Some a
                \<longrightarrow> has_tool s r t \<longrightarrow> next_settings s \<le> a"
    proof (intro allI impI)
      fix t a assume h: "map_of (config_at s' res) t = Some a" "has_tool s r t"
      then obtain rs where rs: "map_of (config_at s r) t = Some rs"
        by (auto simp: has_tool_def has_key_def)
      note rr = merge_inv_result [OF inv rs]
      show "next_settings s \<le> a" using rr(1) rr(3) h(1) by simp
    qed
    from a b e show "next_config s \<le> res'
          \<and> (\<forall>t a. map_of (config_at s' res') t = Some a
                \<longrightarrow> has_tool s r t \<longrightarrow> next_settings s \<le> a)" by simp
  qed
  show ?thesis
    unfolding s' using f1 f2 items [OF wfc] items [OF wfr] new by (intro conjI)
qed

text \<open>
  Claim C10. Whether the merge appends or overrides depends on the root's value alone.
  If some tool has some key in both configurations, with a list in the root and a value
  that is not a list in the local configuration, the merge raises \<^verbatim>\<open>TypeError\<close> and
  returns nothing; it does not fall back to overriding.
\<close>

theorem merge_list_with_non_list_fails:
  assumes wfc: "wf_config s c" and wfr: "wf_config s r"
    and lv: "value_at s c t k = Some lv" and rv: "value_at s r t k = Some rv"
    and l: "is_list rv" and nl: "\<not> is_list lv"
  shows "fst (merge_cs50_yaml c r s) = Inl TypeError"
proof (rule merge_run [OF wfc wfr])
  fix res cp s1 r' s'
  assume o: "r' = Inr () \<or> r' = Inl TypeError"
    and i: "r' = Inr () \<longleftrightarrow> (\<forall>t k. \<not> clash s c r t k)"
    and m: "merge_cs50_yaml c r s = (case r' of Inl e \<Rightarrow> Inl e | Inr u \<Rightarrow> Inr res, s')"
  have "clash s c r t k" using lv rv l nl by (auto simp: clash_def)
  then have "r' \<noteq> Inr ()" using i by blast
  then have "r' = Inl TypeError" using o by blast
  then show ?thesis using m by simp
qed

lemma wf_example:
  "wf_config example_store 0" "wf_config example_store 1"
  "wf_config example_store_str 0" "wf_config example_store_str 1"
  by (simp_all add: wf_config_def example_store_def example_store_str_def)

theorem merge_leaves_inputs_unchanged_witness:
  "wf_config example_store 0 \<and> wf_config example_store 1
   \<and> config_items (snd (merge_cs50_yaml 0 1 example_store)) 0
     = [(''a'', [(''include'', YList [YStr ''x''])]), (''b'', [(''req'', YInt 1)])]
   \<and> config_items (snd (merge_cs50_yaml 0 1 example_store)) 1
     = [(''a'', [(''include'', YList [YStr ''y''])]), (''c'', [(''req'', YInt 2)])]"
proof -
  have e: "config_items example_store 0
     = [(''a'', [(''include'', YList [YStr ''x''])]), (''b'', [(''req'', YInt 1)])]"
    "config_items example_store 1
     = [(''a'', [(''include'', YList [YStr ''y''])]), (''c'', [(''req'', YInt 2)])]"
    by (simp_all add: config_items_def example_store_def)
  from merge_leaves_inputs_unchanged [OF wf_example(1) wf_example(2)] e wf_example(1,2)
  show ?thesis by simp
qed

theorem merge_list_with_non_list_fails_witness:
  "value_at example_store_str 0 ''a'' ''include'' = Some (YStr ''x'')
   \<and> value_at example_store_str 1 ''a'' ''include'' = Some (YList [YStr ''y''])
   \<and> fst (merge_cs50_yaml 0 1 example_store_str) = Inl TypeError"
proof -
  have v: "value_at example_store_str 0 ''a'' ''include'' = Some (YStr ''x'')"
    "value_at example_store_str 1 ''a'' ''include'' = Some (YList [YStr ''y''])"
    by (simp_all add: value_at_def example_store_def example_store_str_def)
  have l: "is_list (YList [YStr ''y''])" "\<not> is_list (YStr ''x'')" by simp_all
  from merge_list_with_non_list_fails [OF wf_example(3) wf_example(4) v l] v
  show ?thesis by simp
qed

subsection \<open>What the result holds when the root does not share what is written\<close>

lemma merge_tool_content:
  assumes wfc: "wf_config s0 c" and wfr: "wf_config s0 r"
    and own: "\<forall>rs t' rs'. map_of (config_at s0 r) t = Some rs \<longrightarrow> t' \<noteq> t \<longrightarrow>
        map_of (config_at s0 r) t' = Some rs' \<longrightarrow> rs' \<noteq> rs"
    and inv: "merge_inv s0 r res cp s"
    and lt: "map_of (config_at s0 c) t = Some ls"
    and untouched: "\<forall>rs k. map_of (config_at s0 r) t = Some rs \<longrightarrow>
        map_of (settings_at s (cp rs)) k
          = map_option (copy_value cp) (map_of (settings_at s0 rs) k)"
    and run: "merge_tool c r res t s = (Inr (), s')"
  shows "\<forall>k. value_at s' res t k =
           (case value_at s0 c t k of
              Some lv \<Rightarrow> Some (merged_value lv (map_option (copy_value cp) (value_at s0 r t k)))
            | None \<Rightarrow> map_option (copy_value cp) (value_at s0 r t k))"
    and "has_tool s' res t"
    and "\<forall>t'. t' \<noteq> t \<longrightarrow> map_of (config_at s' res) t' = map_of (config_at s res) t'
          \<and> (\<forall>a. map_of (config_at s res) t' = Some a \<longrightarrow> settings_at s' a = settings_at s a)"
proof -
  note rc = merge_inv_reads [OF inv wfc]
  note rr = merge_inv_reads [OF inv wfr]
  have g: "getitem (config_at s c) t = Inr ls" using rc(1) lt by (simp add: getitem_def)
  have sl: "settings_at s ls = settings_at s0 ls" using rc(2) [OF lt] .
  have vc: "\<And>k. value_at s0 c t k = map_of (settings_at s0 ls) k"
    using lt by (simp add: value_at_def)
  have "(\<forall>k. value_at s' res t k =
           (case value_at s0 c t k of
              Some lv \<Rightarrow> Some (merged_value lv (map_option (copy_value cp) (value_at s0 r t k)))
            | None \<Rightarrow> map_option (copy_value cp) (value_at s0 r t k)))
     \<and> has_tool s' res t
     \<and> (\<forall>t'. t' \<noteq> t \<longrightarrow> map_of (config_at s' res) t' = map_of (config_at s res) t'
          \<and> (\<forall>a. map_of (config_at s res) t' = Some a \<longrightarrow> settings_at s' a = settings_at s a))"
  proof (cases "map_of (config_at s0 r) t")
    case None
    then have nk: "\<not> has_key (config_at s r) t" using rr(1) by (simp add: has_key_def)
    have e: "s' = s\<lparr>config_at := (config_at s)(res := setitem (config_at s res) t ls)\<rparr>"
      using run nk g by (simp add: merge_tool_def)
    have vr: "\<And>k. value_at s0 r t k = None" using None by (simp add: value_at_def)
    have a: "\<forall>k. value_at s' res t k =
           (case value_at s0 c t k of
              Some lv \<Rightarrow> Some (merged_value lv (map_option (copy_value cp) (value_at s0 r t k)))
            | None \<Rightarrow> map_option (copy_value cp) (value_at s0 r t k))"
    proof
      fix k
      have "value_at s' res t k = map_of (settings_at s0 ls) k"
        using e sl by (simp add: value_at_def map_of_setitem)
      then show "value_at s' res t k =
           (case value_at s0 c t k of
              Some lv \<Rightarrow> Some (merged_value lv (map_option (copy_value cp) (value_at s0 r t k)))
            | None \<Rightarrow> map_option (copy_value cp) (value_at s0 r t k))"
        by (simp add: vc vr merged_value_def split: option.splits)
    qed
    have b: "has_tool s' res t" using e by (simp add: has_tool_def has_key_def map_of_setitem)
    have d: "\<forall>t'. t' \<noteq> t \<longrightarrow> map_of (config_at s' res) t' = map_of (config_at s res) t'
          \<and> (\<forall>a. map_of (config_at s res) t' = Some a \<longrightarrow> settings_at s' a = settings_at s a)"
      using e by (simp add: map_of_setitem)
    from a b d show ?thesis by blast
  next
    case (Some rs)
    then have hk: "has_key (config_at s r) t" using rr(1) by (simp add: has_key_def)
    let ?ks = "map fst (settings_at s0 ls)"
    have run1: "merge_keys c r res t ?ks s = (Inr (), s')"
      using run hk g sl by (simp add: merge_tool_def)
    have ks: "\<forall>k \<in> set ?ks. map_of (settings_at s0 ls) k \<noteq> None"
      by (simp add: map_of_eq_None_iff)
    have dk: "distinct ?ks"
      using wfc map_of_in_snd [OF lt] by (auto simp: wf_config_def)
    have un: "\<forall>k \<in> set ?ks. map_of (settings_at s (cp rs)) k
        = map_option (copy_value cp) (map_of (settings_at s0 rs) k)"
      using untouched Some by simp
    note mg = merge_keys_general [OF wfc wfr lt Some inv ks run1]
    note mc = merge_keys_content [OF wfc wfr lt Some inv ks dk un run1]
    note rres = merge_inv_result [OF inv Some]
    have cfg: "config_at s' = config_at s" using mg by blast
    have oth: "\<forall>a. a \<noteq> cp rs \<longrightarrow> settings_at s' a = settings_at s a" using mg by blast
    have rt': "map_of (config_at s' res) t = Some (cp rs)" using cfg rres(1) by simp
    have vr: "\<And>k. value_at s0 r t k = map_of (settings_at s0 rs) k"
      using Some by (simp add: value_at_def)
    have a: "\<forall>k. value_at s' res t k =
           (case value_at s0 c t k of
              Some lv \<Rightarrow> Some (merged_value lv (map_option (copy_value cp) (value_at s0 r t k)))
            | None \<Rightarrow> map_option (copy_value cp) (value_at s0 r t k))"
    proof
      fix k
      have v: "value_at s' res t k = map_of (settings_at s' (cp rs)) k"
        using rt' by (simp add: value_at_def)
      show "value_at s' res t k =
           (case value_at s0 c t k of
              Some lv \<Rightarrow> Some (merged_value lv (map_option (copy_value cp) (value_at s0 r t k)))
            | None \<Rightarrow> map_option (copy_value cp) (value_at s0 r t k))"
      proof (cases "map_of (settings_at s0 ls) k")
        case None
        then have "k \<notin> set ?ks" by (simp add: map_of_eq_None_iff)
        then have "map_of (settings_at s' (cp rs)) k = map_of (settings_at s (cp rs)) k"
          using mc [of k] by simp
        also have "\<dots> = map_option (copy_value cp) (map_of (settings_at s0 rs) k)"
          using untouched \<open>map_of (config_at s0 r) t = Some rs\<close> by simp
        finally show ?thesis using v vc vr None by simp
      next
        case (Some lv)
        then have "k \<in> set ?ks"
          by (metis map_of_eq_None_iff option.distinct(1) set_map)
        then have "map_of (settings_at s' (cp rs)) k
            = Some (merged_value lv (map_option (copy_value cp) (map_of (settings_at s0 rs) k)))"
          using mc [of k] Some by simp
        then show ?thesis using v vc vr Some by simp
      qed
    qed
    have b: "has_tool s' res t" using rt' by (simp add: has_tool_def has_key_def)
    have d: "\<forall>t'. t' \<noteq> t \<longrightarrow> map_of (config_at s' res) t' = map_of (config_at s res) t'
          \<and> (\<forall>a. map_of (config_at s res) t' = Some a \<longrightarrow> settings_at s' a = settings_at s a)"
    proof (intro allI impI conjI)
      fix t' assume "t' \<noteq> t"
      show "map_of (config_at s' res) t' = map_of (config_at s res) t'" using cfg by simp
    next
      fix t' a assume ne: "t' \<noteq> t" and a: "map_of (config_at s res) t' = Some a"
      have "a \<noteq> cp rs"
      proof (cases "map_of (config_at s0 r) t'")
        case None
        then have "a < next_settings s0" using inv a unfolding merge_inv_def by blast
        then show ?thesis using rres(3) by simp
      next
        case (Some rs')
        have "rs' \<noteq> rs" using own Some \<open>map_of (config_at s0 r) t = Some rs\<close> ne
          by blast
        moreover have "rs' \<in> snd ` set (config_at s0 r)" "rs \<in> snd ` set (config_at s0 r)"
          using Some \<open>map_of (config_at s0 r) t = Some rs\<close> by (auto intro: map_of_in_snd)
        moreover have "inj_on cp (snd ` set (config_at s0 r))"
          using inv unfolding merge_inv_def by blast
        ultimately have "cp rs' \<noteq> cp rs" by (auto dest: inj_onD)
        moreover have "a = cp rs'" using merge_inv_result(1) [OF inv Some] a by simp
        ultimately show ?thesis by simp
      qed
      then show "settings_at s' a = settings_at s a" using oth by blast
    qed
    from a b d show ?thesis by blast
  qed
  then show "\<forall>k. value_at s' res t k =
           (case value_at s0 c t k of
              Some lv \<Rightarrow> Some (merged_value lv (map_option (copy_value cp) (value_at s0 r t k)))
            | None \<Rightarrow> map_option (copy_value cp) (value_at s0 r t k))"
    and "has_tool s' res t"
    and "\<forall>t'. t' \<noteq> t \<longrightarrow> map_of (config_at s' res) t' = map_of (config_at s res) t'
          \<and> (\<forall>a. map_of (config_at s res) t' = Some a \<longrightarrow> settings_at s' a = settings_at s a)"
    by blast+
qed

lemma merge_tools_content:
  assumes wfc: "wf_config s0 c" and wfr: "wf_config s0 r"
    and own: "\<forall>t \<in> set ts. \<forall>rs t' rs'. map_of (config_at s0 r) t = Some rs \<longrightarrow> t' \<noteq> t \<longrightarrow>
        map_of (config_at s0 r) t' = Some rs' \<longrightarrow> rs' \<noteq> rs"
    and inv: "merge_inv s0 r res cp s"
    and ts: "\<forall>t \<in> set ts. map_of (config_at s0 c) t \<noteq> None"
    and dist: "distinct ts"
    and untouched: "\<forall>t \<in> set ts. \<forall>rs k. map_of (config_at s0 r) t = Some rs \<longrightarrow>
        map_of (settings_at s (cp rs)) k
          = map_option (copy_value cp) (map_of (settings_at s0 rs) k)"
    and run: "merge_tools c r res ts s = (Inr (), s')"
  shows "(\<forall>t \<in> set ts. has_tool s' res t
          \<and> (\<forall>k. value_at s' res t k =
                (case value_at s0 c t k of
                   Some lv \<Rightarrow> Some (merged_value lv (map_option (copy_value cp) (value_at s0 r t k)))
                 | None \<Rightarrow> map_option (copy_value cp) (value_at s0 r t k))))
     \<and> (\<forall>t. t \<notin> set ts \<longrightarrow> map_of (config_at s' res) t = map_of (config_at s res) t
          \<and> (\<forall>a. map_of (config_at s res) t = Some a \<longrightarrow> settings_at s' a = settings_at s a))"
  using own inv ts dist untouched run
proof (induction ts arbitrary: s)
  case Nil
  then show ?case by simp
next
  case (Cons t ts)
  obtain ls where lt: "map_of (config_at s0 c) t = Some ls" using Cons.prems(3) by auto
  obtain r1 s1 where m1: "merge_tool c r res t s = (r1, s1)" by (cases "merge_tool c r res t s")
  have r1: "r1 = Inr ()" using Cons.prems(6) m1 by (cases r1) auto
  have run1: "merge_tools c r res ts s1 = (Inr (), s')" using Cons.prems(6) m1 r1 by simp
  have m1': "merge_tool c r res t s = (Inr (), s1)" using m1 r1 by simp
  have inv1: "merge_inv s0 r res cp s1"
    using merge_tool_general [OF wfc wfr Cons.prems(2) lt m1] by blast
  have un_t: "\<forall>rs k. map_of (config_at s0 r) t = Some rs \<longrightarrow>
        map_of (settings_at s (cp rs)) k
          = map_option (copy_value cp) (map_of (settings_at s0 rs) k)"
    using Cons.prems(5) by simp
  have own_t: "\<forall>rs t' rs'. map_of (config_at s0 r) t = Some rs \<longrightarrow> t' \<noteq> t \<longrightarrow>
        map_of (config_at s0 r) t' = Some rs' \<longrightarrow> rs' \<noteq> rs"
    using Cons.prems(1) by simp
  have own1: "\<forall>t \<in> set ts. \<forall>rs t' rs'. map_of (config_at s0 r) t = Some rs \<longrightarrow> t' \<noteq> t \<longrightarrow>
        map_of (config_at s0 r) t' = Some rs' \<longrightarrow> rs' \<noteq> rs"
    using Cons.prems(1) by simp
  note tc = merge_tool_content [OF wfc wfr own_t Cons.prems(2) lt un_t m1']
  have ts1: "\<forall>t \<in> set ts. map_of (config_at s0 c) t \<noteq> None" using Cons.prems(3) by simp
  have d1: "distinct ts" and tn: "t \<notin> set ts" using Cons.prems(4) by simp_all
  have un1: "\<forall>t' \<in> set ts. \<forall>rs k. map_of (config_at s0 r) t' = Some rs \<longrightarrow>
        map_of (settings_at s1 (cp rs)) k
          = map_option (copy_value cp) (map_of (settings_at s0 rs) k)"
  proof (intro ballI allI impI)
    fix t' rs k assume t': "t' \<in> set ts" and rs: "map_of (config_at s0 r) t' = Some rs"
    have ne: "t' \<noteq> t" using t' tn by blast
    have "map_of (config_at s res) t' = Some (cp rs)"
      using merge_inv_result(1) [OF Cons.prems(2) rs] .
    then have "settings_at s1 (cp rs) = settings_at s (cp rs)" using tc(3) ne by blast
    then show "map_of (settings_at s1 (cp rs)) k
          = map_option (copy_value cp) (map_of (settings_at s0 rs) k)"
      using Cons.prems(5) t' rs by simp
  qed
  note ih = Cons.IH [OF own1 inv1 ts1 d1 un1 run1]
  have keep: "\<And>t'. t' \<notin> set ts \<Longrightarrow> map_of (config_at s' res) t' = map_of (config_at s1 res) t'
          \<and> (\<forall>a. map_of (config_at s1 res) t' = Some a \<longrightarrow> settings_at s' a = settings_at s1 a)"
    using ih by blast
  have head: "has_tool s' res t
          \<and> (\<forall>k. value_at s' res t k =
                (case value_at s0 c t k of
                   Some lv \<Rightarrow> Some (merged_value lv (map_option (copy_value cp) (value_at s0 r t k)))
                 | None \<Rightarrow> map_option (copy_value cp) (value_at s0 r t k)))"
  proof -
    have k: "map_of (config_at s' res) t = map_of (config_at s1 res) t"
      "\<forall>a. map_of (config_at s1 res) t = Some a \<longrightarrow> settings_at s' a = settings_at s1 a"
      using keep [OF tn] by blast+
    have h: "has_tool s' res t" using tc(2) k(1) by (simp add: has_tool_def has_key_def)
    have v: "value_at s' res t k' = value_at s1 res t k'" for k'
      using k by (auto simp: value_at_def split: option.splits)
    show ?thesis using h v tc(1) by simp
  qed
  have others: "\<forall>t'. t' \<notin> set (t # ts) \<longrightarrow>
        map_of (config_at s' res) t' = map_of (config_at s res) t'
          \<and> (\<forall>a. map_of (config_at s res) t' = Some a \<longrightarrow> settings_at s' a = settings_at s a)"
  proof (intro allI impI)
    fix t' assume n: "t' \<notin> set (t # ts)"
    then have ne: "t' \<noteq> t" and nt: "t' \<notin> set ts" by simp_all
    have a: "map_of (config_at s1 res) t' = map_of (config_at s res) t'"
      "\<forall>a. map_of (config_at s res) t' = Some a \<longrightarrow> settings_at s1 a = settings_at s a"
      using tc(3) ne by blast+
    have b: "map_of (config_at s' res) t' = map_of (config_at s1 res) t'"
      "\<forall>a. map_of (config_at s1 res) t' = Some a \<longrightarrow> settings_at s' a = settings_at s1 a"
      using keep [OF nt] by blast+
    show "map_of (config_at s' res) t' = map_of (config_at s res) t'
          \<and> (\<forall>a. map_of (config_at s res) t' = Some a \<longrightarrow> settings_at s' a = settings_at s a)"
      using a b by simp
  qed
  have tail: "\<forall>t' \<in> set ts. has_tool s' res t'
          \<and> (\<forall>k. value_at s' res t' k =
                (case value_at s0 c t' k of
                   Some lv \<Rightarrow> Some (merged_value lv (map_option (copy_value cp) (value_at s0 r t' k)))
                 | None \<Rightarrow> map_option (copy_value cp) (value_at s0 r t' k)))"
    using ih by blast
  from head tail others show ?case by simp
qed

text \<open>The merge writes to no settings dictionary but the copies of those of the tools it
  goes through.\<close>

lemma merge_tool_frame:
  assumes wfc: "wf_config s0 c" and wfr: "wf_config s0 r"
    and inv: "merge_inv s0 r res cp s"
    and lt: "map_of (config_at s0 c) t = Some ls"
    and run: "merge_tool c r res t s = (r', s')"
  shows "\<forall>a. (\<forall>rs. map_of (config_at s0 r) t = Some rs \<longrightarrow> a \<noteq> cp rs) \<longrightarrow>
           settings_at s' a = settings_at s a"
proof -
  note rc = merge_inv_reads [OF inv wfc]
  note rr = merge_inv_reads [OF inv wfr]
  have g: "getitem (config_at s c) t = Inr ls" using rc(1) lt by (simp add: getitem_def)
  have sl: "settings_at s ls = settings_at s0 ls" using rc(2) [OF lt] .
  show ?thesis
  proof (cases "map_of (config_at s0 r) t")
    case None
    then have nk: "\<not> has_key (config_at s r) t" using rr(1) by (simp add: has_key_def)
    have "s' = s\<lparr>config_at := (config_at s)(res := setitem (config_at s res) t ls)\<rparr>"
      using run nk g by (simp add: merge_tool_def)
    then show ?thesis by simp
  next
    case (Some rs)
    then have hk: "has_key (config_at s r) t" using rr(1) by (simp add: has_key_def)
    have run1: "merge_keys c r res t (map fst (settings_at s0 ls)) s = (r', s')"
      using run hk g sl by (simp add: merge_tool_def)
    have ks: "\<forall>k \<in> set (map fst (settings_at s0 ls)). map_of (settings_at s0 ls) k \<noteq> None"
      by (simp add: map_of_eq_None_iff)
    have "\<forall>a. a \<noteq> cp rs \<longrightarrow> settings_at s' a = settings_at s a"
      using merge_keys_general [OF wfc wfr lt Some inv ks run1] by blast
    then show ?thesis using Some by simp
  qed
qed

lemma merge_tools_frame:
  assumes wfc: "wf_config s0 c" and wfr: "wf_config s0 r"
    and inv: "merge_inv s0 r res cp s"
    and ts: "\<forall>t \<in> set ts. map_of (config_at s0 c) t \<noteq> None"
    and run: "merge_tools c r res ts s = (r', s')"
  shows "\<forall>a. (\<forall>t \<in> set ts. \<forall>rs. map_of (config_at s0 r) t = Some rs \<longrightarrow> a \<noteq> cp rs) \<longrightarrow>
           settings_at s' a = settings_at s a"
  using inv ts run
proof (induction ts arbitrary: s)
  case Nil
  then show ?case by simp
next
  case (Cons t ts)
  obtain ls where lt: "map_of (config_at s0 c) t = Some ls" using Cons.prems(2) by auto
  obtain r1 s1 where m1: "merge_tool c r res t s = (r1, s1)" by (cases "merge_tool c r res t s")
  note f1 = merge_tool_frame [OF wfc wfr Cons.prems(1) lt m1]
  show ?case
  proof (cases r1)
    case (Inl e)
    then have "s' = s1" using Cons.prems(3) m1 by simp
    then show ?thesis using f1 by simp
  next
    case (Inr u)
    then have run1: "merge_tools c r res ts s1 = (r', s')" using Cons.prems(3) m1 by simp
    have inv1: "merge_inv s0 r res cp s1"
      using merge_tool_general [OF wfc wfr Cons.prems(1) lt m1] by blast
    have ts1: "\<forall>t \<in> set ts. map_of (config_at s0 c) t \<noteq> None" using Cons.prems(2) by simp
    note ih = Cons.IH [OF inv1 ts1 run1]
    show ?thesis using ih f1 by simp
  qed
qed

lemma merge_content:
  assumes wfc: "wf_config s c" and wfr: "wf_config s r"
    and own: "\<forall>t rs t' rs'. has_tool s c t \<longrightarrow> map_of (config_at s r) t = Some rs \<longrightarrow>
        t' \<noteq> t \<longrightarrow> map_of (config_at s r) t' = Some rs' \<longrightarrow> rs' \<noteq> rs"
    and compat: "\<forall>t k. \<not> clash s c r t k"
    and ds: "ds = reachable s (map snd (config_at s r))"
    and cpd: "cp = copy_of ds (next_settings s)"
  shows "\<exists>res s'. merge_cs50_yaml c r s = (Inr res, s')
     \<and> (\<forall>t. has_tool s' res t \<longleftrightarrow> has_tool s c t \<or> has_tool s r t)
     \<and> (\<forall>t k. value_at s' res t k =
           (case value_at s c t k of
              Some lv \<Rightarrow> Some (merged_value lv (map_option (copy_value cp) (value_at s r t k)))
            | None \<Rightarrow> map_option (copy_value cp) (value_at s r t k)))
     \<and> (\<forall>a < next_settings s. settings_at s' a = settings_at s a)
     \<and> (\<forall>a \<in> set ds. (\<forall>t. has_tool s c t \<longrightarrow> map_of (config_at s r) t \<noteq> Some a) \<longrightarrow>
           settings_at s' (cp a) = map (\<lambda>(k, v). (k, copy_value cp v)) (settings_at s a))"
proof (rule merge_run [OF wfc wfr])
  fix res cp' s1 r' s'
  assume dc: "deepcopy r s = (res, s1)"
    and ce: "cp' = copy_of (reachable s (map snd (config_at s r))) (next_settings s)"
    and inv1': "merge_inv s r res cp' s1"
    and inv2': "merge_inv s r res cp' s'"
    and mt: "merge_tools c r res (map fst (config_at s c)) s1 = (r', s')"
    and i: "r' = Inr () \<longleftrightarrow> (\<forall>t k. \<not> clash s c r t k)"
    and m: "merge_cs50_yaml c r s = (case r' of Inl e \<Rightarrow> Inl e | Inr u \<Rightarrow> Inr res, s')"
  have e: "cp' = cp" using ce cpd ds by simp
  note inv1 = inv1' [unfolded e]
  note inv2 = inv2' [unfolded e]
  note dp = deepcopy_props [OF wfr dc ds cpd]
  note content = dp(2)
  note cres = dp(6)
  have r': "r' = Inr ()" using i compat by blast
  have mt': "merge_tools c r res (map fst (config_at s c)) s1 = (Inr (), s')"
    using mt r' by simp
  have m': "merge_cs50_yaml c r s = (Inr res, s')" using m r' by simp
  let ?ts = "map fst (config_at s c)"
  have ts: "\<forall>t \<in> set ?ts. map_of (config_at s c) t \<noteq> None"
    by (simp add: map_of_eq_None_iff)
  have dist: "distinct ?ts" using wfc by (simp add: wf_config_def)
  have inL: "\<And>t. t \<in> set ?ts \<longleftrightarrow> has_tool s c t"
    by (simp add: has_tool_def has_key_def map_of_eq_None_iff)
  have inds: "\<And>t rs. map_of (config_at s r) t = Some rs \<Longrightarrow> rs \<in> set ds"
    using dp(5) map_of_in_snd by fastforce
  have copied: "\<And>t rs k. map_of (config_at s r) t = Some rs \<Longrightarrow>
      map_of (settings_at s1 (cp rs)) k = map_option (copy_value cp) (map_of (settings_at s rs) k)"
  proof -
    fix t rs k assume "map_of (config_at s r) t = Some rs"
    then have "rs \<in> set ds" by (rule inds)
    then have "settings_at s1 (cp rs) = map (\<lambda>(k, v). (k, copy_value cp v)) (settings_at s rs)"
      using content by blast
    then show "map_of (settings_at s1 (cp rs)) k
        = map_option (copy_value cp) (map_of (settings_at s rs) k)"
      by (simp add: map_of_map_snd)
  qed
  have un: "\<forall>t \<in> set ?ts. \<forall>rs k. map_of (config_at s r) t = Some rs \<longrightarrow>
        map_of (settings_at s1 (cp rs)) k
          = map_option (copy_value cp) (map_of (settings_at s rs) k)"
    using copied by blast
  have own': "\<forall>t \<in> set ?ts. \<forall>rs t' rs'. map_of (config_at s r) t = Some rs \<longrightarrow> t' \<noteq> t \<longrightarrow>
        map_of (config_at s r) t' = Some rs' \<longrightarrow> rs' \<noteq> rs"
    using own inL by blast
  note tc = merge_tools_content [OF wfc wfr own' inv1 ts dist un mt']
  note fr = merge_tools_frame [OF wfc wfr inv1 ts mt']
  have res1: "\<And>t. map_of (config_at s1 res) t = map_option cp (map_of (config_at s r) t)"
    by (simp add: cres map_of_map_snd)
  have out: "has_tool s' res t = has_tool s r t
      \<and> (\<forall>k. value_at s' res t k = map_option (copy_value cp) (value_at s r t k))"
    if n: "\<not> has_tool s c t" for t
  proof -
    have nt: "t \<notin> set ?ts" using n inL by blast
    have k: "map_of (config_at s' res) t = map_of (config_at s1 res) t"
      "\<forall>a. map_of (config_at s1 res) t = Some a \<longrightarrow> settings_at s' a = settings_at s1 a"
      using tc nt by blast+
    show ?thesis
    proof (cases "map_of (config_at s r) t")
      case None
      then show ?thesis using k res1 [of t]
        by (simp add: has_tool_def has_key_def value_at_def)
    next
      case (Some rs)
      have c1: "map_of (config_at s' res) t = Some (cp rs)" using k(1) res1 [of t] Some by simp
      have "settings_at s' (cp rs) = settings_at s1 (cp rs)" using k(2) res1 [of t] Some by simp
      then have "\<And>k. map_of (settings_at s' (cp rs)) k
          = map_option (copy_value cp) (map_of (settings_at s rs) k)"
        using copied [OF Some] by simp
      then show ?thesis using c1 Some
        by (simp add: has_tool_def has_key_def value_at_def)
    qed
  qed
  have nonec: "\<And>t k. \<not> has_tool s c t \<Longrightarrow> value_at s c t k = None"
    by (simp add: has_tool_def has_key_def value_at_def)
  have tools: "\<forall>t. has_tool s' res t \<longleftrightarrow> has_tool s c t \<or> has_tool s r t"
  proof
    fix t show "has_tool s' res t \<longleftrightarrow> has_tool s c t \<or> has_tool s r t"
    proof (cases "has_tool s c t")
      case True
      then show ?thesis using tc inL by blast
    next
      case False
      then show ?thesis using out by blast
    qed
  qed
  have vals: "\<forall>t k. value_at s' res t k =
           (case value_at s c t k of
              Some lv \<Rightarrow> Some (merged_value lv (map_option (copy_value cp) (value_at s r t k)))
            | None \<Rightarrow> map_option (copy_value cp) (value_at s r t k))"
  proof (intro allI)
    fix t k show "value_at s' res t k =
           (case value_at s c t k of
              Some lv \<Rightarrow> Some (merged_value lv (map_option (copy_value cp) (value_at s r t k)))
            | None \<Rightarrow> map_option (copy_value cp) (value_at s r t k))"
    proof (cases "has_tool s c t")
      case True
      then have "t \<in> set ?ts" using inL by blast
      then show ?thesis using tc by blast
    next
      case False
      then show ?thesis using out [OF False] nonec [OF False] by simp
    qed
  qed
  have old: "\<forall>a < next_settings s. settings_at s' a = settings_at s a"
    using inv2 unfolding merge_inv_def by blast
  have unwritten: "\<forall>a \<in> set ds. (\<forall>t. has_tool s c t \<longrightarrow> map_of (config_at s r) t \<noteq> Some a) \<longrightarrow>
           settings_at s' (cp a) = map (\<lambda>(k, v). (k, copy_value cp v)) (settings_at s a)"
  proof (intro ballI impI)
    fix a assume a: "a \<in> set ds"
      and nw: "\<forall>t. has_tool s c t \<longrightarrow> map_of (config_at s r) t \<noteq> Some a"
    have "\<forall>t \<in> set ?ts. \<forall>rs. map_of (config_at s r) t = Some rs \<longrightarrow> cp a \<noteq> cp rs"
    proof (intro ballI allI impI)
      fix t rs assume t: "t \<in> set ?ts" and rs: "map_of (config_at s r) t = Some rs"
      have "rs \<noteq> a" using nw t rs inL by blast
      moreover have "rs \<in> set ds" using inds [OF rs] .
      ultimately show "cp a \<noteq> cp rs" using dp(4) a by (auto dest: inj_onD)
    qed
    then have "settings_at s' (cp a) = settings_at s1 (cp a)" using fr by blast
    then show "settings_at s' (cp a) = map (\<lambda>(k, v). (k, copy_value cp v)) (settings_at s a)"
      using content a by simp
  qed
  from m' tools vals old unwritten
  show "\<exists>res s'. merge_cs50_yaml c r s = (Inr res, s')
     \<and> (\<forall>t. has_tool s' res t \<longleftrightarrow> has_tool s c t \<or> has_tool s r t)
     \<and> (\<forall>t k. value_at s' res t k =
           (case value_at s c t k of
              Some lv \<Rightarrow> Some (merged_value lv (map_option (copy_value cp) (value_at s r t k)))
            | None \<Rightarrow> map_option (copy_value cp) (value_at s r t k)))
     \<and> (\<forall>a < next_settings s. settings_at s' a = settings_at s a)
     \<and> (\<forall>a \<in> set ds. (\<forall>t. has_tool s c t \<longrightarrow> map_of (config_at s r) t \<noteq> Some a) \<longrightarrow>
           settings_at s' (cp a) = map (\<lambda>(k, v). (k, copy_value cp v)) (settings_at s a))"
    by blast
qed

subsection \<open>Reading the result by value\<close>

text \<open>
  Reading a value gives the same in two stores when the dictionaries it can reach are
  the same in both; and reading the copy of a value gives what reading the original
  gave when every dictionary the original can reach has, in the store of the copy, a copy
  that is as the deep copy made it.
\<close>

lemma dicts_in_item:
  "p \<in> set (settings_at s a) \<Longrightarrow> set (dicts_in (snd p)) \<subseteq> set (dicts_of s a)"
  by (auto simp: dicts_of_def)

lemma map_of_dicts_in:
  "map_of (settings_at s a) k = Some v \<Longrightarrow> set (dicts_in v) \<subseteq> set (dicts_of s a)"
  using dicts_in_item [of "(k, v)" s a] by (auto dest: map_of_SomeD)

lemma read_frame:
  "closed_in s A \<Longrightarrow> \<forall>a \<in> A. settings_at s' a = settings_at s a \<Longrightarrow>
   set (dicts_in v) \<subseteq> A \<Longrightarrow> read_value s' d v = read_value s d v"
proof (induction s d v rule: read_value.induct)
  case (5 s d xs)
  have "\<And>x. x \<in> set xs \<Longrightarrow> read_value s' d x = read_value s d x"
  proof -
    fix x assume x: "x \<in> set xs"
    then have "set (dicts_in x) \<subseteq> A" using "5.prems"(3) by auto
    then show "read_value s' d x = read_value s d x" using "5.IH" [OF x "5.prems"(1,2)] by blast
  qed
  then show ?case by simp
next
  case (7 s d a)
  have a: "a \<in> A" using "7.prems"(3) by simp
  then have eq: "settings_at s' a = settings_at s a" using "7.prems"(2) by blast
  have "\<And>p. p \<in> set (settings_at s a) \<Longrightarrow> read_value s' d (snd p) = read_value s d (snd p)"
  proof -
    fix p assume p: "p \<in> set (settings_at s a)"
    have "set (dicts_in (snd p)) \<subseteq> A"
      using dicts_in_item [OF p] "7.prems"(1) a by (auto simp: closed_in_def)
    then show "read_value s' d (snd p) = read_value s d (snd p)"
      using "7.IH" [OF p "7.prems"(1,2)] by blast
  qed
  then show ?case using eq by simp
qed simp_all

lemma read_copy:
  "closed_in s B \<Longrightarrow>
   \<forall>a \<in> B. settings_at s' (m a) = map (\<lambda>(k, v). (k, copy_value m v)) (settings_at s a) \<Longrightarrow>
   set (dicts_in v) \<subseteq> B \<Longrightarrow> read_value s' d (copy_value m v) = read_value s d v"
proof (induction s d v rule: read_value.induct)
  case (5 s d xs)
  have "\<And>x. x \<in> set xs \<Longrightarrow> read_value s' d (copy_value m x) = read_value s d x"
  proof -
    fix x assume x: "x \<in> set xs"
    then have "set (dicts_in x) \<subseteq> B" using "5.prems"(3) by auto
    then show "read_value s' d (copy_value m x) = read_value s d x"
      using "5.IH" [OF x "5.prems"(1,2)] by blast
  qed
  then show ?case by simp
next
  case (7 s d a)
  have a: "a \<in> B" using "7.prems"(3) by simp
  then have eq: "settings_at s' (m a) = map (\<lambda>(k, v). (k, copy_value m v)) (settings_at s a)"
    using "7.prems"(2) by blast
  have "\<And>p. p \<in> set (settings_at s a) \<Longrightarrow>
      read_value s' d (copy_value m (snd p)) = read_value s d (snd p)"
  proof -
    fix p assume p: "p \<in> set (settings_at s a)"
    have "set (dicts_in (snd p)) \<subseteq> B"
      using dicts_in_item [OF p] "7.prems"(1) a by (auto simp: closed_in_def)
    then show "read_value s' d (copy_value m (snd p)) = read_value s d (snd p)"
      using "7.IH" [OF p "7.prems"(1,2)] by blast
  qed
  then show ?case using eq by (simp add: case_prod_beta)
qed simp_all

lemma written_iff:
  assumes "distinct (map fst (config_at s r))"
  shows "a \<in> set (written s c r)
     \<longleftrightarrow> (\<exists>t. has_tool s c t \<and> map_of (config_at s r) t = Some a)"
proof
  assume "a \<in> set (written s c r)"
  then obtain t where "(t, a) \<in> set (config_at s r)" "has_key (config_at s c) t"
    by (auto simp: written_def)
  then show "\<exists>t. has_tool s c t \<and> map_of (config_at s r) t = Some a"
    using assms by (auto simp: has_tool_def)
next
  assume "\<exists>t. has_tool s c t \<and> map_of (config_at s r) t = Some a"
  then obtain t where "has_key (config_at s c) t" "(t, a) \<in> set (config_at s r)"
    by (auto simp: has_tool_def dest: map_of_SomeD)
  then show "a \<in> set (written s c r)" by (force simp: written_def)
qed

lemma deepcopy_fst: "fst (deepcopy r s) = next_config s"
  by (simp add: deepcopy_def Let_def)

text \<open>The result of the merge when no list meets a value that is not a list and the
  root shares nothing that is written: what each key holds, and that the values of the
  local configuration and the copies of the values of the root read as the originals did
  at the call.\<close>

lemma merge_read:
  assumes wfs: "wf_store s" and wfc: "wf_config s c" and wfr: "wf_config s r"
    and un: "unshared s c r"
    and compat: "\<forall>t k. \<not> clash s c r t k"
    and cpd: "cp = copy_of (reachable s (map snd (config_at s r))) (next_settings s)"
  shows "\<exists>s'. merge_cs50_yaml c r s = (Inr (next_config s), s')
     \<and> (\<forall>t. has_tool s' (next_config s) t \<longleftrightarrow> has_tool s c t \<or> has_tool s r t)
     \<and> (\<forall>t k. value_at s' (next_config s) t k =
           (case value_at s c t k of
              Some lv \<Rightarrow> Some (merged_value lv (map_option (copy_value cp) (value_at s r t k)))
            | None \<Rightarrow> map_option (copy_value cp) (value_at s r t k)))
     \<and> (\<forall>t k lv d. value_at s c t k = Some lv \<longrightarrow> read_value s' d lv = read_value s d lv)
     \<and> (\<forall>t k rv d. value_at s r t k = Some rv \<longrightarrow>
           read_value s' d (copy_value cp rv) = read_value s d rv)"
proof -
  let ?n = "next_settings s"
  define ds where "ds = reachable s (map snd (config_at s r))"
  have cpd': "cp = copy_of ds ?n" using cpd ds_def by simp
  have dr: "distinct (map fst (config_at s r))" using wfr by (simp add: wf_config_def)
  have own: "\<forall>t rs t' rs'. has_tool s c t \<longrightarrow> map_of (config_at s r) t = Some rs \<longrightarrow>
        t' \<noteq> t \<longrightarrow> map_of (config_at s r) t' = Some rs' \<longrightarrow> rs' \<noteq> rs"
  proof (intro allI impI notI)
    fix t rs t' rs'
    assume h: "has_tool s c t" "map_of (config_at s r) t = Some rs" "t' \<noteq> t"
      "map_of (config_at s r) t' = Some rs'" "rs' = rs"
    have "(t, rs) \<in> set (config_at s r)" "(t', rs) \<in> set (config_at s r)"
      using h by (auto dest: map_of_SomeD)
    then have "rs \<notin> set (written s c r)" using un h(3) unfolding unshared_def by fastforce
    then show False using written_iff [OF dr] h(1,2) by blast
  qed
  obtain res s' where m: "merge_cs50_yaml c r s = (Inr res, s')"
    and tools: "\<forall>t. has_tool s' res t \<longleftrightarrow> has_tool s c t \<or> has_tool s r t"
    and vals: "\<forall>t k. value_at s' res t k =
           (case value_at s c t k of
              Some lv \<Rightarrow> Some (merged_value lv (map_option (copy_value cp) (value_at s r t k)))
            | None \<Rightarrow> map_option (copy_value cp) (value_at s r t k))"
    and old: "\<forall>a < ?n. settings_at s' a = settings_at s a"
    and unwritten: "\<forall>a \<in> set ds. (\<forall>t. has_tool s c t \<longrightarrow> map_of (config_at s r) t \<noteq> Some a) \<longrightarrow>
           settings_at s' (cp a) = map (\<lambda>(k, v). (k, copy_value cp v)) (settings_at s a)"
    using merge_content [OF wfc wfr own compat ds_def cpd'] by blast
  have "fst (deepcopy r s) = res"
    using m by (auto simp: merge_cs50_yaml_def split: prod.splits sum.splits)
  then have res: "res = next_config s" by (simp add: deepcopy_fst)
  have clo: "closed_in s {..<?n}" using wfs by (auto simp: wf_store_def closed_in_def)
  have same: "\<forall>a \<in> {..<?n}. settings_at s' a = settings_at s a" using old by simp
  have tool_lt: "\<And>x t a. wf_config s x \<Longrightarrow> map_of (config_at s x) t = Some a \<Longrightarrow> a < ?n"
    using map_of_in_snd by (fastforce simp: wf_config_def)
  have loc: "\<forall>t k lv d. value_at s c t k = Some lv \<longrightarrow> read_value s' d lv = read_value s d lv"
  proof (intro allI impI)
    fix t k lv d assume "value_at s c t k = Some lv"
    then obtain ls where ls: "map_of (config_at s c) t = Some ls"
      "map_of (settings_at s ls) k = Some lv"
      by (auto simp: value_at_def split: option.splits)
    have "ls < ?n" using tool_lt [OF wfc ls(1)] .
    then have "set (dicts_of s ls) \<subseteq> {..<?n}" using wfs by (auto simp: wf_store_def)
    then have "set (dicts_in lv) \<subseteq> {..<?n}" using map_of_dicts_in [OF ls(2)] by blast
    then show "read_value s' d lv = read_value s d lv" by (rule read_frame [OF clo same])
  qed
  have roots: "\<forall>a \<in> set (map snd (config_at s r)). a < ?n"
    using wfr by (auto simp: wf_config_def)
  note rp = reachable_props [OF wfs roots]
  have cds: "closed_in s (set ds)" using rp(1) ds_def by simp
  have rt: "\<forall>t k rv d. value_at s r t k = Some rv \<longrightarrow>
           read_value s' d (copy_value cp rv) = read_value s d rv"
  proof (intro allI impI)
    fix t k rv d assume "value_at s r t k = Some rv"
    then obtain rs where rs: "map_of (config_at s r) t = Some rs"
      "map_of (settings_at s rs) k = Some rv"
      by (auto simp: value_at_def split: option.splits)
    let ?B = "set (reachable s (dicts_of s rs))"
    have rsn: "rs < ?n" using tool_lt [OF wfr rs(1)] .
    then have below: "\<forall>a \<in> set (dicts_of s rs). a < ?n" using wfs by (auto simp: wf_store_def)
    note rb = reachable_props [OF wfs below]
    have rsd: "rs \<in> set ds"
      using reachable_mono [of "map snd (config_at s r)" s] map_of_in_snd [OF rs(1)] ds_def
      by auto
    then have "set (dicts_of s rs) \<subseteq> set ds" using cds by (auto simp: closed_in_def)
    then have sub: "?B \<subseteq> set ds" by (rule reachable_least [OF cds])
    have item: "(t, rs) \<in> set (config_at s r)" using rs(1) by (auto dest: map_of_SomeD)
    have nw: "\<forall>b \<in> ?B. b \<notin> set (written s c r)"
      using un item unfolding unshared_def by fastforce
    have cont: "\<forall>b \<in> ?B. settings_at s' (cp b)
        = map (\<lambda>(k, v). (k, copy_value cp v)) (settings_at s b)"
    proof
      fix b assume b: "b \<in> ?B"
      then have "b \<notin> set (written s c r)" using nw by blast
      then have "\<forall>t. has_tool s c t \<longrightarrow> map_of (config_at s r) t \<noteq> Some b"
        using written_iff [OF dr] by blast
      moreover have "b \<in> set ds" using sub b by blast
      ultimately show "settings_at s' (cp b)
        = map (\<lambda>(k, v). (k, copy_value cp v)) (settings_at s b)"
        using unwritten by blast
    qed
    have "set (dicts_in rv) \<subseteq> ?B"
      using map_of_dicts_in [OF rs(2)] reachable_mono [of "dicts_of s rs" s] by blast
    then show "read_value s' d (copy_value cp rv) = read_value s d rv"
      by (rule read_copy [OF rb(1) cont])
  qed
  from m tools vals loc rt show ?thesis unfolding res by blast
qed

text \<open>
  Claim C3, as the code has it. Take a sound store and two configurations of which no
  dictionary has a key twice, the local value being a list wherever the root's value for
  the same tool and key is a list, and the root sharing nothing that the merge writes
  to: a settings dictionary of a tool that both configurations have is the settings of no
  other tool of the root, and no value of the root refers to it, directly or through
  other dictionaries (nor, in this store, to the root itself). Then the
  merge returns a new configuration that has exactly the tools of either input and in
  which, per tool and key, the value reads at every depth as: the root's list followed
  by the local list where both have the key and the root's value is a list; the local
  value where both have the key and the root's value is not a list; and the value of the
  one side that has the key otherwise. On the example of the specification the result is
  \<^verbatim>\<open>{"a": {"include": ["y", "x"]}, "c": {"req": 2}, "b": {"req": 1}}\<close>, which as a
  dictionary is \<^verbatim>\<open>{"a": {"include": ["y", "x"]}, "b": {"req": 1}, "c": {"req": 2}}\<close>.
\<close>

theorem merge_appends_or_overrides:
  assumes wfs: "wf_store s" and wfc: "wf_config s c" and wfr: "wf_config s r"
    and un: "unshared s c r"
    and compat: "\<forall>t k lv rv. value_at s c t k = Some lv \<longrightarrow> value_at s r t k = Some rv \<longrightarrow>
        is_list rv \<longrightarrow> is_list lv"
  shows "fst (merge_cs50_yaml c r s) = Inr (next_config s)
     \<and> (\<forall>t. has_tool (snd (merge_cs50_yaml c r s)) (next_config s) t
            \<longleftrightarrow> has_tool s c t \<or> has_tool s r t)
     \<and> (\<forall>t k xs ys d. value_at s r t k = Some (YList xs) \<longrightarrow>
          value_at s c t k = Some (YList ys) \<longrightarrow>
          read_at (snd (merge_cs50_yaml c r s)) (next_config s) t k d
            = Some (PList (map (read_value s d) (xs @ ys))))
     \<and> (\<forall>t k lv rv d. value_at s c t k = Some lv \<longrightarrow> value_at s r t k = Some rv \<longrightarrow>
          \<not> is_list rv \<longrightarrow>
          read_at (snd (merge_cs50_yaml c r s)) (next_config s) t k d
            = Some (read_value s d lv))
     \<and> (\<forall>t k lv d. value_at s c t k = Some lv \<longrightarrow> value_at s r t k = None \<longrightarrow>
          read_at (snd (merge_cs50_yaml c r s)) (next_config s) t k d
            = Some (read_value s d lv))
     \<and> (\<forall>t k d. value_at s c t k = None \<longrightarrow>
          read_at (snd (merge_cs50_yaml c r s)) (next_config s) t k d = read_at s r t k d)
     \<and> fst (merge_cs50_yaml 0 1 example_store) = Inr 2
     \<and> config_items (snd (merge_cs50_yaml 0 1 example_store)) 2
        = [(''a'', [(''include'', YList [YStr ''y'', YStr ''x''])]),
           (''c'', [(''req'', YInt 2)]),
           (''b'', [(''req'', YInt 1)])]
     \<and> map_of (config_items (snd (merge_cs50_yaml 0 1 example_store)) 2)
        = map_of [(''a'', [(''include'', YList [YStr ''y'', YStr ''x''])]),
                  (''b'', [(''req'', YInt 1)]),
                  (''c'', [(''req'', YInt 2)])]"
proof -
  have nc: "\<forall>t k. \<not> clash s c r t k" using compat by (auto simp: clash_def)
  define cp where "cp = copy_of (reachable s (map snd (config_at s r))) (next_settings s)"
  obtain s' where m: "merge_cs50_yaml c r s = (Inr (next_config s), s')"
    and tools: "\<forall>t. has_tool s' (next_config s) t \<longleftrightarrow> has_tool s c t \<or> has_tool s r t"
    and vals: "\<forall>t k. value_at s' (next_config s) t k =
           (case value_at s c t k of
              Some lv \<Rightarrow> Some (merged_value lv (map_option (copy_value cp) (value_at s r t k)))
            | None \<Rightarrow> map_option (copy_value cp) (value_at s r t k))"
    and loc: "\<forall>t k lv d. value_at s c t k = Some lv \<longrightarrow> read_value s' d lv = read_value s d lv"
    and rt: "\<forall>t k rv d. value_at s r t k = Some rv \<longrightarrow>
           read_value s' d (copy_value cp rv) = read_value s d rv"
    using merge_read [OF wfs wfc wfr un nc cp_def] by blast
  have f: "fst (merge_cs50_yaml c r s) = Inr (next_config s)"
    and s': "snd (merge_cs50_yaml c r s) = s'"
    using m by simp_all
  have b: "\<forall>t k xs ys d. value_at s r t k = Some (YList xs) \<longrightarrow>
          value_at s c t k = Some (YList ys) \<longrightarrow>
          read_at s' (next_config s) t k d = Some (PList (map (read_value s d) (xs @ ys)))"
  proof (intro allI impI)
    fix t k xs ys d
    assume h: "value_at s r t k = Some (YList xs)" "value_at s c t k = Some (YList ys)"
    have v: "value_at s' (next_config s) t k = Some (YList (map (copy_value cp) xs @ ys))"
      using vals h by (simp add: merged_value_def)
    have "read_value s' d (copy_value cp (YList xs)) = read_value s d (YList xs)"
      using rt h(1) by blast
    then have x: "map (read_value s' d \<circ> copy_value cp) xs = map (read_value s d) xs" by simp
    have "read_value s' d (YList ys) = read_value s d (YList ys)" using loc h(2) by blast
    then have y: "map (read_value s' d) ys = map (read_value s d) ys" by simp
    show "read_at s' (next_config s) t k d = Some (PList (map (read_value s d) (xs @ ys)))"
      using v x y by (simp add: read_at_def)
  qed
  have c: "\<forall>t k lv rv d. value_at s c t k = Some lv \<longrightarrow> value_at s r t k = Some rv \<longrightarrow>
          \<not> is_list rv \<longrightarrow> read_at s' (next_config s) t k d = Some (read_value s d lv)"
  proof (intro allI impI)
    fix t k lv rv d
    assume h: "value_at s c t k = Some lv" "value_at s r t k = Some rv" "\<not> is_list rv"
    have "value_at s' (next_config s) t k = Some lv"
      using vals h by (cases rv) (simp_all add: merged_value_def)
    then show "read_at s' (next_config s) t k d = Some (read_value s d lv)"
      using loc h(1) by (simp add: read_at_def)
  qed
  have d: "\<forall>t k lv d. value_at s c t k = Some lv \<longrightarrow> value_at s r t k = None \<longrightarrow>
          read_at s' (next_config s) t k d = Some (read_value s d lv)"
  proof (intro allI impI)
    fix t k lv d
    assume h: "value_at s c t k = Some lv" "value_at s r t k = None"
    have "value_at s' (next_config s) t k = Some lv"
      using vals h by (simp add: merged_value_def)
    then show "read_at s' (next_config s) t k d = Some (read_value s d lv)"
      using loc h(1) by (simp add: read_at_def)
  qed
  have e: "\<forall>t k d. value_at s c t k = None \<longrightarrow>
          read_at s' (next_config s) t k d = read_at s r t k d"
  proof (intro allI impI)
    fix t k d
    assume h: "value_at s c t k = None"
    have v: "value_at s' (next_config s) t k = map_option (copy_value cp) (value_at s r t k)"
      using vals h by simp
    show "read_at s' (next_config s) t k d = read_at s r t k d"
    proof (cases "value_at s r t k")
      case None
      then show ?thesis using v by (simp add: read_at_def)
    next
      case (Some rv)
      then have "read_value s' d (copy_value cp rv) = read_value s d rv" using rt by blast
      then show ?thesis using v Some by (simp add: read_at_def)
    qed
  qed
  have x: "fst (merge_cs50_yaml 0 1 example_store) = Inr 2"
    by code_simp
  have y: "config_items (snd (merge_cs50_yaml 0 1 example_store)) 2
        = [(''a'', [(''include'', YList [YStr ''y'', YStr ''x''])]),
           (''c'', [(''req'', YInt 2)]),
           (''b'', [(''req'', YInt 1)])]"
    by code_simp
  have z: "map_of (config_items (snd (merge_cs50_yaml 0 1 example_store)) 2)
        = map_of [(''a'', [(''include'', YList [YStr ''y'', YStr ''x''])]),
                  (''b'', [(''req'', YInt 1)]),
                  (''c'', [(''req'', YInt 2)])]"
    unfolding y by (rule ext) simp
  show ?thesis
    unfolding s' using f tools b c d e x y z by (intro conjI)
qed

theorem merge_appends_or_overrides_witness:
  "wf_store example_store_tree \<and> wf_config example_store_tree 0
   \<and> wf_config example_store_tree 1 \<and> unshared example_store_tree 0 1
   \<and> read_at (snd (merge_cs50_yaml 0 1 example_store_tree)) (next_config example_store_tree)
        ''a'' ''include'' 1
      = Some (PList [PStr ''y'', PDict [(''k'', PInt 2)], PStr ''x''])
   \<and> read_at (snd (merge_cs50_yaml 0 1 example_store_tree)) (next_config example_store_tree)
        ''a'' ''opts'' 1
      = Some (PDict [(''v'', PInt 1)])
   \<and> read_at (snd (merge_cs50_yaml 0 1 example_store_tree)) (next_config example_store_tree)
        ''a'' ''env'' 1
      = Some (PDict [(''k'', PInt 2)])
   \<and> read_at (snd (merge_cs50_yaml 0 1 example_store_tree)) (next_config example_store_tree)
        ''c'' ''k'' 1
      = Some (PInt 2)"
proof -
  have wfs: "wf_store example_store_tree" by code_simp
  have wfc: "wf_config example_store_tree 0" and wfr: "wf_config example_store_tree 1"
    by (simp_all add: wf_config_def example_store_tree_def)
  have un: "unshared example_store_tree 0 1" by code_simp
  have compat: "\<forall>t k lv rv. value_at example_store_tree 0 t k = Some lv \<longrightarrow>
      value_at example_store_tree 1 t k = Some rv \<longrightarrow> is_list rv \<longrightarrow> is_list lv"
    by (auto simp: value_at_def example_store_tree_def split: if_splits)
  note th = merge_appends_or_overrides [OF wfs wfc wfr un compat]
  have v: "value_at example_store_tree 1 ''a'' ''include'' = Some (YList [YStr ''y'', YDict 3])"
    "value_at example_store_tree 0 ''a'' ''include'' = Some (YList [YStr ''x''])"
    "value_at example_store_tree 0 ''a'' ''opts'' = Some (YDict 1)"
    "value_at example_store_tree 1 ''a'' ''opts'' = None"
    "value_at example_store_tree 0 ''a'' ''env'' = None"
    "value_at example_store_tree 0 ''c'' ''k'' = None"
    by (simp_all add: value_at_def example_store_tree_def)
  have r: "map (read_value example_store_tree 1) ([YStr ''y'', YDict 3] @ [YStr ''x''])
      = [PStr ''y'', PDict [(''k'', PInt 2)], PStr ''x'']"
    "read_value example_store_tree 1 (YDict 1) = PDict [(''v'', PInt 1)]"
    "read_at example_store_tree 1 ''a'' ''env'' 1 = Some (PDict [(''k'', PInt 2)])"
    "read_at example_store_tree 1 ''c'' ''k'' 1 = Some (PInt 2)"
    by (simp_all add: read_at_def value_at_def example_store_tree_def)
  from th v(1) v(2)
  have a: "read_at (snd (merge_cs50_yaml 0 1 example_store_tree)) (next_config example_store_tree)
        ''a'' ''include'' 1
      = Some (PList (map (read_value example_store_tree 1) ([YStr ''y'', YDict 3] @ [YStr ''x''])))"
    by blast
  from th v(3) v(4)
  have b: "read_at (snd (merge_cs50_yaml 0 1 example_store_tree)) (next_config example_store_tree)
        ''a'' ''opts'' 1
      = Some (read_value example_store_tree 1 (YDict 1))"
    by blast
  from th v(5)
  have c: "read_at (snd (merge_cs50_yaml 0 1 example_store_tree)) (next_config example_store_tree)
        ''a'' ''env'' 1
      = read_at example_store_tree 1 ''a'' ''env'' 1"
    by blast
  from th v(6)
  have d: "read_at (snd (merge_cs50_yaml 0 1 example_store_tree)) (next_config example_store_tree)
        ''c'' ''k'' 1
      = read_at example_store_tree 1 ''c'' ''k'' 1"
    by blast
  from wfs wfc wfr un a b c d show ?thesis unfolding r by (intro conjI)
qed

text \<open>
  Against claim C3 as the specification words it, for every pair of configurations: on a
  sound pair whose root has a list under a key and whose local configuration has a
  string there, the merge produces no configuration.
\<close>

theorem merge_appends_or_overrides_counterexample:
  "wf_store example_store_str \<and> wf_config example_store_str 0 \<and> wf_config example_store_str 1
   \<and> unshared example_store_str 0 1
   \<and> value_at example_store_str 1 ''a'' ''include'' = Some (YList [YStr ''y''])
   \<and> value_at example_store_str 0 ''a'' ''include'' = Some (YStr ''x'')
   \<and> fst (merge_cs50_yaml 0 1 example_store_str) = Inl TypeError"
proof -
  have w: "wf_store example_store_str" "unshared example_store_str 0 1"
    by code_simp+
  have a: "value_at example_store_str 1 ''a'' ''include'' = Some (YList [YStr ''y''])"
    "value_at example_store_str 0 ''a'' ''include'' = Some (YStr ''x'')"
    by (simp_all add: value_at_def example_store_def example_store_str_def)
  have b: "fst (merge_cs50_yaml 0 1 example_store_str) = Inl TypeError"
    by code_simp
  from w(1) wf_example(3) wf_example(4) w(2) a b show ?thesis by (intro conjI)
qed

text \<open>
  Why the root must not share what the merge writes to. When two tools of the root are
  one settings dictionary, the copy is one dictionary too, and what the merge writes for
  one tool shows under the other: here the local configuration has only the tool \<open>a\<close>,
  and the tool \<open>b\<close> of the result has the list of \<open>a\<close>.
\<close>

lemma merge_shared_root_settings:
  "wf_store example_store_shared \<and> wf_config example_store_shared 0
   \<and> wf_config example_store_shared 1 \<and> \<not> unshared example_store_shared 0 1
   \<and> \<not> has_tool example_store_shared 0 ''b''
   \<and> read_at example_store_shared 1 ''b'' ''include'' 0 = Some (PList [PStr ''y''])
   \<and> fst (merge_cs50_yaml 0 1 example_store_shared) = Inr 2
   \<and> read_at (snd (merge_cs50_yaml 0 1 example_store_shared)) 2 ''b'' ''include'' 0
       = Some (PList [PStr ''y'', PStr ''x''])"
proof -
  have w: "wf_store example_store_shared" "\<not> unshared example_store_shared 0 1"
    by code_simp+
  have a: "wf_config example_store_shared 0" "wf_config example_store_shared 1"
    "\<not> has_tool example_store_shared 0 ''b''"
    "read_at example_store_shared 1 ''b'' ''include'' 0 = Some (PList [PStr ''y''])"
    by (simp_all add: wf_config_def has_tool_def has_key_def value_at_def read_at_def
        example_store_shared_def)
  have b: "fst (merge_cs50_yaml 0 1 example_store_shared) = Inr 2"
    by code_simp
  have c: "read_at (snd (merge_cs50_yaml 0 1 example_store_shared)) 2 ''b'' ''include'' 0
       = Some (PList [PStr ''y'', PStr ''x''])"
    by code_simp
  from w a b c show ?thesis by (intro conjI)
qed

text \<open>
  The same when the settings dictionary of a tool is inside a value of another tool: the
  deep copy keeps the alias, and what the merge writes for the tool \<open>a\<close> shows in the
  value of \<open>base\<close> under the tool \<open>b\<close>, which the local configuration does not have.
\<close>

lemma merge_shared_nested_settings:
  "wf_store example_store_nested \<and> wf_config example_store_nested 0
   \<and> wf_config example_store_nested 1 \<and> \<not> unshared example_store_nested 0 1
   \<and> \<not> has_tool example_store_nested 0 ''b''
   \<and> read_at example_store_nested 1 ''b'' ''base'' 1
       = Some (PDict [(''include'', PList [PStr ''y''])])
   \<and> fst (merge_cs50_yaml 0 1 example_store_nested) = Inr 2
   \<and> read_at (snd (merge_cs50_yaml 0 1 example_store_nested)) 2 ''b'' ''base'' 1
       = Some (PDict [(''include'', PList [PStr ''y'', PStr ''x''])])"
proof -
  have w: "wf_store example_store_nested" "\<not> unshared example_store_nested 0 1"
    by code_simp+
  have a: "wf_config example_store_nested 0" "wf_config example_store_nested 1"
    "\<not> has_tool example_store_nested 0 ''b''"
    "read_at example_store_nested 1 ''b'' ''base'' 1
       = Some (PDict [(''include'', PList [PStr ''y''])])"
    by (simp_all add: wf_config_def has_tool_def has_key_def value_at_def read_at_def
        example_store_nested_def)
  have b: "fst (merge_cs50_yaml 0 1 example_store_nested) = Inr 2"
    by code_simp
  have c: "read_at (snd (merge_cs50_yaml 0 1 example_store_nested)) 2 ''b'' ''base'' 1
       = Some (PDict [(''include'', PList [PStr ''y'', PStr ''x''])])"
    by code_simp
  from w a b c show ?thesis by (intro conjI)
qed

section \<open>Properties of connecting\<close>

lemma st_bind_Inr: "m s = (Inr x, s') \<Longrightarrow> st_bind m f s = f x s'"
  by (simp add: st_bind_def)

lemma st_bind_Inl: "m s = (Inl e, s') \<Longrightarrow> st_bind m f s = (Inl e, s')"
  by (simp add: st_bind_def)

text \<open>\<^verbatim>\<open>connect\<close> from line 69 on, once the slug is parsed, the local file fetched and
  parsed and the tool found in it.\<close>

lemma connect_from_root_fetch:
  assumes slug: "parse_slug (git env) branch False = Inr (porg, prepo, pbranch, pdir)"
    and loc: "get_content_from (local_get env) porg prepo pbranch
                (path_join env pdir ''.cs50.yaml'') = Inr text"
    and load: "safe_load env text s = (Inr c, s1)"
    and tool: "has_key (config_at s1 c) tool"
  shows "connect env org branch tool s =
     st_bind (\<lambda>s. case get_content_from (root_get env) porg prepo pbranch ''.cs50.yaml'' of
                     Inl e \<Rightarrow> if is_Error e then (Inr c, s) else (Inl e, s)
                   | Inr root_text \<Rightarrow>
                       st_bind (safe_load env root_text) (\<lambda>rt. merge_cs50_yaml c rt) s)
       (\<lambda>cfg.
     st_bind (\<lambda>s. (exn_bind (getitem (config_at s cfg) tool) (\<lambda>tool_yaml.
                    check_required (isfile env) s (settings_at s tool_yaml)), s)) (\<lambda>_.
     (\<lambda>s. (getitem (config_at s cfg) tool, s)))) s1"
  using assms by (simp add: connect_def st_bind_def)

lemma connect_check_and_return:
  assumes "map_of (config_at s cfg) tool = Some a"
  shows "st_bind (\<lambda>s. (exn_bind (getitem (config_at s cfg) tool) (\<lambda>tool_yaml.
                    check_required (isfile env) s (settings_at s tool_yaml)), s)) (\<lambda>_.
     (\<lambda>s. (getitem (config_at s cfg) tool, s))) s
   = (case check_required (isfile env) s (settings_at s a) of
        Inl e \<Rightarrow> Inl e | Inr u \<Rightarrow> Inr a, s)"
  using assms by (simp add: st_bind_def getitem_def exn_bind_def split: sum.splits)

text \<open>
  Claim C9, as the code has it. When the fetch of the root configuration raises an
  \<^verbatim>\<open>Error\<close> (the response was not a success), \<^verbatim>\<open>connect\<close> goes on with the local
  configuration alone: it checks the required files of the tool's local settings and
  returns them. An exception of another class from that fetch is raised by \<^verbatim>\<open>connect\<close>.
  When the fetch succeeds, the root file is parsed and merged with the local
  configuration, and the required files are checked on, and the result taken from, the
  merged configuration.
\<close>

theorem connect_root_fetch:
  assumes slug: "parse_slug (git env) branch False = Inr (porg, prepo, pbranch, pdir)"
    and loc: "get_content_from (local_get env) porg prepo pbranch
                (path_join env pdir ''.cs50.yaml'') = Inr text"
    and load: "safe_load env text s = (Inr c, s1)"
    and tool: "map_of (config_at s1 c) tool = Some a"
  shows "(\<forall>e. get_content_from (root_get env) porg prepo pbranch ''.cs50.yaml'' = Inl e
            \<and> is_Error e \<longrightarrow>
          connect env org branch tool s
            = (case check_required (isfile env) s1 (settings_at s1 a) of
                 Inl e' \<Rightarrow> Inl e' | Inr u \<Rightarrow> Inr a, s1))
     \<and> (\<forall>e. get_content_from (root_get env) porg prepo pbranch ''.cs50.yaml'' = Inl e
            \<and> \<not> is_Error e \<longrightarrow>
          connect env org branch tool s = (Inl e, s1))
     \<and> (\<forall>root_text rt s2 m s3 b.
          get_content_from (root_get env) porg prepo pbranch ''.cs50.yaml'' = Inr root_text
            \<and> safe_load env root_text s1 = (Inr rt, s2)
            \<and> merge_cs50_yaml c rt s2 = (Inr m, s3)
            \<and> map_of (config_at s3 m) tool = Some b \<longrightarrow>
          connect env org branch tool s
            = (case check_required (isfile env) s3 (settings_at s3 b) of
                 Inl e' \<Rightarrow> Inl e' | Inr u \<Rightarrow> Inr b, s3))"
proof -
  have hk: "has_key (config_at s1 c) tool" using tool by (simp add: has_key_def)
  note from_root = connect_from_root_fetch [OF slug loc load hk, of org]
  have a: "\<forall>e. get_content_from (root_get env) porg prepo pbranch ''.cs50.yaml'' = Inl e
            \<and> is_Error e \<longrightarrow>
          connect env org branch tool s
            = (case check_required (isfile env) s1 (settings_at s1 a) of
                 Inl e' \<Rightarrow> Inl e' | Inr u \<Rightarrow> Inr a, s1)"
  proof (intro allI impI)
    fix e assume e: "get_content_from (root_get env) porg prepo pbranch ''.cs50.yaml'' = Inl e
            \<and> is_Error e"
    have "connect env org branch tool s =
       st_bind (\<lambda>s. (exn_bind (getitem (config_at s c) tool) (\<lambda>tool_yaml.
                    check_required (isfile env) s (settings_at s tool_yaml)), s)) (\<lambda>_.
       (\<lambda>s. (getitem (config_at s c) tool, s))) s1"
      unfolding from_root using e by (simp add: st_bind_Inr)
    then show "connect env org branch tool s
            = (case check_required (isfile env) s1 (settings_at s1 a) of
                 Inl e' \<Rightarrow> Inl e' | Inr u \<Rightarrow> Inr a, s1)"
      using connect_check_and_return [OF tool] by simp
  qed
  have b: "\<forall>e. get_content_from (root_get env) porg prepo pbranch ''.cs50.yaml'' = Inl e
            \<and> \<not> is_Error e \<longrightarrow>
          connect env org branch tool s = (Inl e, s1)"
    unfolding from_root by (simp add: st_bind_Inl)
  have c: "\<forall>root_text rt s2 m s3 b.
          get_content_from (root_get env) porg prepo pbranch ''.cs50.yaml'' = Inr root_text
            \<and> safe_load env root_text s1 = (Inr rt, s2)
            \<and> merge_cs50_yaml c rt s2 = (Inr m, s3)
            \<and> map_of (config_at s3 m) tool = Some b \<longrightarrow>
          connect env org branch tool s
            = (case check_required (isfile env) s3 (settings_at s3 b) of
                 Inl e' \<Rightarrow> Inl e' | Inr u \<Rightarrow> Inr b, s3)"
  proof (intro allI impI)
    fix root_text rt s2 m s3 b
    assume h: "get_content_from (root_get env) porg prepo pbranch ''.cs50.yaml'' = Inr root_text
            \<and> safe_load env root_text s1 = (Inr rt, s2)
            \<and> merge_cs50_yaml c rt s2 = (Inr m, s3)
            \<and> map_of (config_at s3 m) tool = Some b"
    have "connect env org branch tool s =
       st_bind (\<lambda>s. (exn_bind (getitem (config_at s m) tool) (\<lambda>tool_yaml.
                    check_required (isfile env) s (settings_at s tool_yaml)), s)) (\<lambda>_.
       (\<lambda>s. (getitem (config_at s m) tool, s))) s3"
      unfolding from_root using h by (simp add: st_bind_def)
    then show "connect env org branch tool s
            = (case check_required (isfile env) s3 (settings_at s3 b) of
                 Inl e' \<Rightarrow> Inl e' | Inr u \<Rightarrow> Inr b, s3)"
      using h connect_check_and_return [of s3 m tool b] by simp
  qed
  from a b c show ?thesis by (intro conjI)
qed

lemma example_connect_start:
  "parse_slug (git (example_connect_env second)) ''cs50/problems/master/hello'' False
     = Inr (''cs50'', ''problems'', ''master'', Path ''hello'')"
  "get_content_from (local_get (example_connect_env second)) ''cs50'' ''problems'' ''master''
     (path_join (example_connect_env second) (Path ''hello'') ''.cs50.yaml'') = Inr ''local''"
  "safe_load (example_connect_env second) ''local'' example_store = (Inr 0, example_store)"
  "map_of (config_at example_store 0) ''a'' = Some 0"
  by (simp_all add: example_connect_env_def parse_slug_def startswith_def endswith_def
      suffix_def find_from_def getindex_def get_content_from_def example_store_def)

theorem connect_root_fetch_witness:
  "get_content_from (root_get (example_connect_env (Inr \<lparr>ok = False, content = []\<rparr>)))
       ''cs50'' ''problems'' ''master'' ''.cs50.yaml''
     = Inl (Error ''Invalid slug. Did you mean to submit something else?'')
   \<and> connect (example_connect_env (Inr \<lparr>ok = False, content = []\<rparr>))
        ''cs50'' ''cs50/problems/master/hello'' ''a'' example_store
     = (Inr 0, example_store)"
proof -
  let ?env = "example_connect_env (Inr \<lparr>ok = False, content = []\<rparr>)"
  have f: "get_content_from (root_get ?env) ''cs50'' ''problems'' ''master'' ''.cs50.yaml''
     = Inl (Error ''Invalid slug. Did you mean to submit something else?'')"
    by (simp add: example_connect_env_def get_content_from_def gettext_def)
  have e: "is_Error (Error ''Invalid slug. Did you mean to submit something else?'')"
    by simp
  have r: "check_required (isfile ?env) example_store (settings_at example_store 0) = Inr ()"
    by (simp add: check_required_def has_key_def example_store_def)
  from connect_root_fetch [OF example_connect_start, of "Inr \<lparr>ok = False, content = []\<rparr>" "''cs50''"]
    f e
  have "connect ?env ''cs50'' ''cs50/problems/master/hello'' ''a'' example_store
     = (case check_required (isfile ?env) example_store (settings_at example_store 0) of
                 Inl e' \<Rightarrow> Inl e' | Inr u \<Rightarrow> Inr 0, example_store)"
    by blast
  then have c: "connect ?env ''cs50'' ''cs50/problems/master/hello'' ''a'' example_store
     = (Inr 0, example_store)"
    using r by simp
  from f c show ?thesis by (rule conjI)
qed

text \<open>
  Against claim C9 as the specification words it: the second request fails in the
  transport, \<^verbatim>\<open>requests.get\<close> raises an exception that is no \<^verbatim>\<open>Error\<close>, and
  \<^verbatim>\<open>connect\<close> raises it instead of going on with the local configuration.
\<close>

theorem connect_root_fetch_counterexample:
  "get_content_from (root_get (example_connect_env (Inl (OtherException ''ConnectionError''))))
       ''cs50'' ''problems'' ''master'' ''.cs50.yaml''
     = Inl (OtherException ''ConnectionError'')
   \<and> fst (connect (example_connect_env (Inl (OtherException ''ConnectionError'')))
        ''cs50'' ''cs50/problems/master/hello'' ''a'' example_store)
     = Inl (OtherException ''ConnectionError'')"
proof -
  have a: "get_content_from (root_get (example_connect_env (Inl (OtherException ''ConnectionError''))))
       ''cs50'' ''problems'' ''master'' ''.cs50.yaml''
     = Inl (OtherException ''ConnectionError'')"
    by (simp add: example_connect_env_def get_content_from_def)
  have b: "fst (connect (example_connect_env (Inl (OtherException ''ConnectionError'')))
        ''cs50'' ''cs50/problems/master/hello'' ''a'' example_store)
     = Inl (OtherException ''ConnectionError'')"
    by code_simp
  from a b show ?thesis by (rule conjI)
qed

end
